theory Spec2Isabelle
  imports Complex_Main "HOL-Library.Sublist"
begin

section \<open>ECMAScript dates\<close>

text \<open>
  The billing-cycle generator works on JavaScript \<open>Date\<close> objects.  A \<open>Date\<close> holds a time
  value: a number of milliseconds since 1970-01-01T00:00:00Z, or \<open>NaN\<close> for an Invalid Date.
  The time value is an \<open>int option\<close> here, with \<open>None\<close> for \<open>NaN\<close>.  The functions below
  follow the definitions of ECMA-262 (Day, TimeWithinDay, DaysInYear, DayFromYear,
  YearFromTime, InLeapYear, MonthFromTime, DateFromTime, MakeDay, MakeDate) on finite time
  values.

  Two things belong to the runtime and not to the program:
  \<^item> the local time zone.  \<open>new Date("YYYY-MM-DD")\<close> and \<open>toISOString\<close> work in UTC, while
    \<open>getDate\<close>, \<open>setDate\<close>, \<open>getMonth\<close>, \<open>setMonth\<close>, \<open>getFullYear\<close> and
    \<open>setFullYear\<close> read and write the calendar fields of the local time.  The zone is a
    parameter of everything that uses these methods (\<open>zone\<close>, \<open>LocalTime\<close> and \<open>UTC\<close>
    below);
  \<^item> \<open>TimeClip\<close>, which is the identity here: date strings carry four-digit years, and the
    time values reached from them stay far inside the range of \<open>8.64 * 10^15\<close>
    milliseconds around the epoch.
\<close>

type_synonym Date = "int option"

definition msPerDay :: int where
  "msPerDay = 86400000"

definition Day :: "int \<Rightarrow> int" where
  "Day t = t div msPerDay"

definition TimeWithinDay :: "int \<Rightarrow> int" where
  "TimeWithinDay t = t mod msPerDay"

definition DaysInYear :: "int \<Rightarrow> int" where
  "DaysInYear y =
     (if y mod 4 \<noteq> 0 then 365
      else if y mod 100 \<noteq> 0 then 366
      else if y mod 400 \<noteq> 0 then 365
      else 366)"

definition DayFromYear :: "int \<Rightarrow> int" where
  "DayFromYear y =
     365 * (y - 1970) + (y - 1969) div 4 - (y - 1901) div 100 + (y - 1601) div 400"

text \<open>
  ECMA-262 defines \<open>YearFromTime t\<close> as the largest \<open>y\<close> with \<open>TimeFromYear y \<le> t\<close>.  The
  executable form below starts from an estimate that is at most one year off and corrects
  it; \<open>YearFromDay_lower\<close> and \<open>YearFromDay_upper\<close> show that it meets the definition.
\<close>

definition YearFromDay :: "int \<Rightarrow> int" where
  "YearFromDay d =
     (let y = 1970 + (400 * d) div 146097
      in if d < DayFromYear y then y - 1
         else if DayFromYear (y + 1) \<le> d then y + 1
         else y)"

definition YearFromTime :: "int \<Rightarrow> int" where
  "YearFromTime t = YearFromDay (Day t)"

definition InLeapYear :: "int \<Rightarrow> int" where
  "InLeapYear t = (if DaysInYear (YearFromTime t) = 366 then 1 else 0)"

definition DayWithinYear :: "int \<Rightarrow> int" where
  "DayWithinYear t = Day t - DayFromYear (YearFromTime t)"

definition MonthFromTime :: "int \<Rightarrow> int" where
  "MonthFromTime t =
     (let d = DayWithinYear t; l = InLeapYear t
      in if d < 31 then 0
         else if d < 59 + l then 1
         else if d < 90 + l then 2
         else if d < 120 + l then 3
         else if d < 151 + l then 4
         else if d < 181 + l then 5
         else if d < 212 + l then 6
         else if d < 243 + l then 7
         else if d < 273 + l then 8
         else if d < 304 + l then 9
         else if d < 334 + l then 10
         else 11)"

definition DateFromTime :: "int \<Rightarrow> int" where
  "DateFromTime t =
     (let d = DayWithinYear t; l = InLeapYear t; m = MonthFromTime t
      in if m = 0 then d + 1
         else if m = 1 then d - 30
         else if m = 2 then d - 58 - l
         else if m = 3 then d - 89 - l
         else if m = 4 then d - 119 - l
         else if m = 5 then d - 150 - l
         else if m = 6 then d - 180 - l
         else if m = 7 then d - 211 - l
         else if m = 8 then d - 242 - l
         else if m = 9 then d - 272 - l
         else if m = 10 then d - 303 - l
         else d - 333 - l)"

text \<open>
  \<open>MonthStart y m\<close> is the day within year \<open>y\<close> on which month \<open>m\<close> (0 to 11) begins: the
  lower bounds of the table of \<open>MonthFromTime\<close>.  \<open>MakeDay\<close> carries a month outside 0 to 11
  into the year, and lets a day of the month outside the month run into the neighbouring
  months, as \<open>setDate\<close>, \<open>setMonth\<close> and \<open>setFullYear\<close> rely on.
\<close>

definition MonthStart :: "int \<Rightarrow> int \<Rightarrow> int" where
  "MonthStart y m =
     (let l = (if DaysInYear y = 366 then 1 else 0)
      in if m = 0 then 0
         else if m = 1 then 31
         else if m = 2 then 59 + l
         else if m = 3 then 90 + l
         else if m = 4 then 120 + l
         else if m = 5 then 151 + l
         else if m = 6 then 181 + l
         else if m = 7 then 212 + l
         else if m = 8 then 243 + l
         else if m = 9 then 273 + l
         else if m = 10 then 304 + l
         else 334 + l)"

definition MakeDay :: "int \<Rightarrow> int \<Rightarrow> int \<Rightarrow> int" where
  "MakeDay year month date =
     (let ym = year + month div 12; mn = month mod 12
      in DayFromYear ym + MonthStart ym mn + date - 1)"

definition MakeDate :: "int \<Rightarrow> int \<Rightarrow> int" where
  "MakeDate day time = day * msPerDay + time"

definition HourFromTime :: "int \<Rightarrow> int" where
  "HourFromTime t = (t div 3600000) mod 24"

definition MinFromTime :: "int \<Rightarrow> int" where
  "MinFromTime t = (t div 60000) mod 60"

definition SecFromTime :: "int \<Rightarrow> int" where
  "SecFromTime t = (t div 1000) mod 60"

definition msFromTime :: "int \<Rightarrow> int" where
  "msFromTime t = t mod 1000"

subsection \<open>Parsing date strings\<close>

text \<open>
  The date strings handed to \<open>new Date(...)\<close> (the course's \<open>startDate\<close> and the join date)
  are calendar dates \<open>YYYY-MM-DD\<close>, which ECMAScript reads as midnight UTC of that day (a
  start date that comes back from the server as \<open>YYYY-MM-DDT00:00:00.000Z\<close> is the same
  time value).  A date string is represented by the fields that the parser reads from
  it: \<open>YMD y m d\<close> with the month counted from 1, or \<open>NotADate\<close> for a string that does not
  parse.  Fields that name no calendar day give an Invalid Date here; an engine that reads
  a day past the end of its month as a day of the next month behaves as on the string of
  that day.
\<close>

datatype datestr = YMD int int int | NotADate

definition DaysInMonth :: "int \<Rightarrow> int \<Rightarrow> int" where
  "DaysInMonth y m =
     (if m = 2 then (if DaysInYear y = 366 then 29 else 28)
      else if m = 4 \<or> m = 6 \<or> m = 9 \<or> m = 11 then 30
      else 31)"

fun Date_new :: "datestr \<Rightarrow> Date" where
  "Date_new (YMD y m d) =
     (if 0 \<le> y \<and> y \<le> 9999 \<and> 1 \<le> m \<and> m \<le> 12 \<and> 1 \<le> d \<and> d \<le> DaysInMonth y m
      then Some (MakeDate (MakeDay y (m - 1) d) 0)
      else None)"
| "Date_new NotADate = None"

subsection \<open>Comparing dates\<close>

text \<open>
  The relational operators convert both \<open>Date\<close> operands to their time values; every
  comparison with \<open>NaN\<close> is false.
\<close>

fun date_lt :: "Date \<Rightarrow> Date \<Rightarrow> bool" where
  "date_lt (Some a) (Some b) = (a < b)"
| "date_lt _ _ = False"

fun date_le :: "Date \<Rightarrow> Date \<Rightarrow> bool" where
  "date_le (Some a) (Some b) = (a \<le> b)"
| "date_le _ _ = False"

definition date_gt :: "Date \<Rightarrow> Date \<Rightarrow> bool" where
  "date_gt a b = date_lt b a"

definition date_ge :: "Date \<Rightarrow> Date \<Rightarrow> bool" where
  "date_ge a b = date_le b a"

subsection \<open>Printing dates\<close>

datatype error = RangeError

definition digit_char :: "int \<Rightarrow> char" where
  "digit_char d = ''0123456789'' ! nat d"

definition pad :: "nat \<Rightarrow> int \<Rightarrow> string" where
  "pad w n = map (\<lambda>k. digit_char (n div 10 ^ k mod 10)) (rev [0..<w])"

definition year_string :: "int \<Rightarrow> string" where
  "year_string y =
     (if 0 \<le> y \<and> y \<le> 9999 then pad 4 y
      else (if y < 0 then CHR ''-'' else CHR ''+'') # pad 6 \<bar>y\<bar>)"

text \<open>
  \<open>toISOString\<close> prints \<open>YYYY-MM-DDTHH:mm:ss.sssZ\<close> (with a sign and six digits for a year
  outside 0 to 9999) and throws a \<open>RangeError\<close> on an Invalid Date.
\<close>

definition toISOString :: "Date \<Rightarrow> error + string" where
  "toISOString date =
     (case date of
        None \<Rightarrow> Inl RangeError
      | Some t \<Rightarrow>
          Inr (year_string (YearFromTime t) @ ''-'' @ pad 2 (MonthFromTime t + 1) @ ''-''
               @ pad 2 (DateFromTime t) @ ''T'' @ pad 2 (HourFromTime t) @ '':''
               @ pad 2 (MinFromTime t) @ '':'' @ pad 2 (SecFromTime t) @ ''.''
               @ pad 3 (msFromTime t) @ ''Z''))"

text \<open>\<open>s.split('T')[0]\<close>: the part of \<open>s\<close> before its first \<open>T\<close>.\<close>

definition split_T_0 :: "string \<Rightarrow> string" where
  "split_T_0 s = takeWhile (\<lambda>c. c \<noteq> CHR ''T'') s"

definition toISODate :: "Date \<Rightarrow> error + string" where
  "toISODate date = map_sum (\<lambda>e. e) split_T_0 (toISOString date)"

subsection \<open>Local time\<close>

text \<open>
  ECMA-262 turns a time value into a local time value with \<open>LocalTime(t) = t + offset\<close>,
  the offset being the one in force in the local time zone at the instant \<open>t\<close>, and back
  with \<open>UTC(t) = t - offset\<close>, the offset being the one of the instant that the local
  time \<open>t\<close> names: of the earlier instant when a clock change makes it name two, and the
  offset before the change when it names none.  A time zone is given here by these two
  functions: the offset in milliseconds at an instant, and the offset in milliseconds of a
  local time value.  The offsets come from the time zone database, where they lie between
  twelve hours behind and fourteen hours ahead of UTC; \<open>zone_offset\<close> is the identity on
  offsets of up to a day and reads a longer one as a day, so that every value of the type
  \<open>zone\<close> stands for a zone with offsets of at most a day.
\<close>

record zone =
  offset_at :: "int \<Rightarrow> int"
  offset_of_local :: "int \<Rightarrow> int"

definition zone_offset :: "int \<Rightarrow> int" where
  "zone_offset x = max (- msPerDay) (min msPerDay x)"

definition LocalTime :: "zone \<Rightarrow> int \<Rightarrow> int" where
  "LocalTime z t = t + zone_offset (offset_at z t)"

definition UTC :: "zone \<Rightarrow> int \<Rightarrow> int" where
  "UTC z t = t - zone_offset (offset_of_local z t)"

text \<open>
  A zone with the same offset at all times, UTC itself, and the zone five hours behind
  UTC all year (\<open>America/Bogota\<close>, \<open>America/Lima\<close>; also \<open>America/New_York\<close> in winter).
\<close>

definition zone_fixed :: "int \<Rightarrow> zone" where
  "zone_fixed off = \<lparr>offset_at = (\<lambda>t. off), offset_of_local = (\<lambda>t. off)\<rparr>"

definition zone_UTC :: zone where
  "zone_UTC = zone_fixed 0"

definition zone_UTC_minus_5 :: zone where
  "zone_UTC_minus_5 = zone_fixed (- 18000000)"

text \<open>
  \<open>Europe/Berlin\<close> from 2023-10-29 to 2025-10-26: one hour ahead of UTC, and two hours
  ahead from 2024-03-31T01:00:00Z (1711846800000) to 2024-10-27T01:00:00Z (1729990800000)
  and again from 2025-03-30T01:00:00Z (1743296400000).  On the mornings of 2024-03-31 and
  2025-03-30 the local clock goes from 02:00 to 03:00, and the local times in between are
  read with the offset before the change; on the morning of 2024-10-27 it goes from 03:00
  back to 02:00, and the local times that occur twice are read as their first occurrence.
\<close>

definition zone_Berlin :: zone where
  "zone_Berlin =
     \<lparr>offset_at = (\<lambda>t. if t < 1711846800000 then 3600000
                         else if t < 1729990800000 then 7200000
                         else if t < 1743296400000 then 3600000
                         else 7200000),
      offset_of_local = (\<lambda>t. if t < 1711846800000 + 7200000 then 3600000
                               else if t < 1729990800000 + 7200000 then 7200000
                               else if t < 1743296400000 + 7200000 then 3600000
                               else 7200000)\<rparr>"

subsection \<open>The methods used by the generator\<close>

text \<open>
  \<open>getDate\<close>, \<open>getMonth\<close> and \<open>getFullYear\<close> read the calendar fields of the local time
  \<open>LocalTime(t)\<close>; \<open>setDate\<close>, \<open>setMonth\<close> and \<open>setFullYear\<close> rebuild the local time from
  its calendar fields with one field replaced, keep its time within the day, and store
  \<open>UTC\<close> of the result.  On an Invalid Date the getters return \<open>NaN\<close> and the result is
  again an Invalid Date.  Each helper of the source copies its argument, so the argument
  itself is never changed.
\<close>

definition addDays :: "zone \<Rightarrow> Date \<Rightarrow> int \<Rightarrow> Date" where
  "addDays z date days =
     (case date of
        None \<Rightarrow> None
      | Some tv \<Rightarrow>
          let t = LocalTime z tv
          in Some (UTC z (MakeDate (MakeDay (YearFromTime t) (MonthFromTime t)
                                     (DateFromTime t + days))
                            (TimeWithinDay t))))"

definition addMonths :: "zone \<Rightarrow> Date \<Rightarrow> int \<Rightarrow> Date" where
  "addMonths z date months =
     (case date of
        None \<Rightarrow> None
      | Some tv \<Rightarrow>
          let t = LocalTime z tv
          in Some (UTC z (MakeDate (MakeDay (YearFromTime t) (MonthFromTime t + months)
                                     (DateFromTime t))
                            (TimeWithinDay t))))"

definition addYears :: "zone \<Rightarrow> Date \<Rightarrow> int \<Rightarrow> Date" where
  "addYears z date years =
     (case date of
        None \<Rightarrow> None
      | Some tv \<Rightarrow>
          let t = LocalTime z tv
          in Some (UTC z (MakeDate (MakeDay (YearFromTime t + years) (MonthFromTime t)
                                     (DateFromTime t))
                            (TimeWithinDay t))))"

section \<open>Numbers\<close>

text \<open>
  A JavaScript number is an IEEE 754 binary64 value.  The finite ones are rationals; \<open>fl\<close>
  rounds a rational to the nearest rational with a 53-bit significand, ties to even, which
  is what division and multiplication do to their exact results.  The exponent range is
  not modelled (no overflow to infinity, no subnormal numbers).  The subtraction of two
  time values is exact.  \<open>Math.round\<close> returns the nearest integer, a tie going up.
\<close>

function bits :: "int \<Rightarrow> int" where
  "bits n = (if n \<le> 0 then 0 else 1 + bits (n div 2))"
  by pat_completeness auto
termination
  by (relation "measure nat") auto

declare bits.simps [simp del]

definition float_exp :: "rat \<Rightarrow> int" where
  "float_exp x =
     (let p = fst (quotient_of \<bar>x\<bar>); q = snd (quotient_of \<bar>x\<bar>);
          k = bits p - bits q
      in if power_int 2 k \<le> \<bar>x\<bar> then k else k - 1)"

definition round_half_even :: "rat \<Rightarrow> int" where
  "round_half_even x =
     (let f = \<lfloor>x\<rfloor>; r = x - of_int f
      in if r < 1 / 2 then f
         else if 1 / 2 < r then f + 1
         else if even f then f
         else f + 1)"

definition fl :: "rat \<Rightarrow> rat" where
  "fl x =
     (if x = 0 then 0
      else let e = float_exp x - 52
           in of_int (round_half_even (x / power_int 2 e)) * power_int 2 e)"

definition Math_round :: "rat \<Rightarrow> rat" where
  "Math_round x = of_int \<lfloor>x + 1 / 2\<rfloor>"

section \<open>The data model\<close>

text \<open>
  The interfaces \<open>Course\<close> and \<open>Payment\<close>.  The field \<open>id\<close> of each is written \<open>id_c\<close> and
  \<open>id_p\<close>, and the field \<open>notes\<close> is written \<open>notes_c\<close>.  The type of \<open>period\<close> is a union
  of three string literals, which the running program does not enforce: the field is a
  string, and the generator compares it with \<open>'weekly'\<close> and \<open>'monthly'\<close>.  A \<open>fee\<close> and an
  \<open>amount\<close> are the rational values of finite numbers.
\<close>

record Course =
  id_c :: string
  name :: string
  startDate :: datestr
  fee :: rat
  period :: string
  scheduleDays :: "string list"
  scheduleTime :: string
  notes_c :: string

datatype PaymentStatus = pending | paid | waived | overdue

record Payment =
  id_p :: string
  studentId :: string
  courseId :: string
  periodStart :: string
  periodEnd :: string
  amount :: rat
  status :: PaymentStatus
  dueDate :: string
  paidDate :: "string option"

section \<open>The billing-cycle generator\<close>

text \<open>
  The step from one cycle boundary to the next, written out twice in the source (in the
  alignment loop and in the generation loop) as the same conditional chain.
\<close>

definition advance :: "zone \<Rightarrow> string \<Rightarrow> Date \<Rightarrow> Date" where
  "advance z p date =
     (if p = ''weekly'' then addDays z date 7
      else if p = ''monthly'' then addMonths z date 1
      else addYears z date 1)"

definition periodsToGenerate :: "string \<Rightarrow> nat" where
  "periodsToGenerate p = (if p = ''weekly'' then 52 else (if p = ''monthly'' then 12 else 5))"

text \<open>
  \<open>existingPayments.some(p => ...)\<close>.  The callback evaluates
  \<open>effectiveStart.toISOString()\<close> only for a record whose \<open>studentId\<close> and \<open>courseId\<close>
  match, and the exception of an Invalid Date leaves \<open>some\<close> there.
\<close>

fun some_exists :: "string \<Rightarrow> string \<Rightarrow> Date \<Rightarrow> Payment list \<Rightarrow> error + bool" where
  "some_exists sid cid effectiveStart [] = Inr False"
| "some_exists sid cid effectiveStart (p # ps) =
     (if studentId p = sid \<and> courseId p = cid
      then (case toISODate effectiveStart of
              Inl e \<Rightarrow> Inl e
            | Inr d \<Rightarrow> if prefix d (periodStart p) then Inr True
                       else some_exists sid cid effectiveStart ps)
      else some_exists sid cid effectiveStart ps)"

text \<open>
  The pro-rated amount of the first cycle.  The branch is entered only when
  \<open>joinDate > currentPeriodStart\<close>, which is false as soon as one of the two is invalid.
\<close>

fun cycle_amount :: "rat \<Rightarrow> nat \<Rightarrow> Date \<Rightarrow> Date \<Rightarrow> Date \<Rightarrow> rat" where
  "cycle_amount fee' i (Some joinDate) (Some currentPeriodStart) (Some periodEnd') =
     (if i = 0 \<and> joinDate > currentPeriodStart
      then let totalDuration = periodEnd' - currentPeriodStart;
               studentDuration = periodEnd' - joinDate;
               ratio = fl (of_int studentDuration / of_int totalDuration)
           in Math_round (fl (fee' * ratio))
      else fee')"
| "cycle_amount fee' i _ _ _ = fee'"

text \<open>
  \<open>currentPeriodStart < joinDate ? joinDate : currentPeriodStart\<close>
\<close>

definition effectiveStart_of :: "Date \<Rightarrow> Date \<Rightarrow> Date" where
  "effectiveStart_of joinDate currentPeriodStart =
     (if date_lt currentPeriodStart joinDate then joinDate else currentPeriodStart)"

text \<open>
  One pass through the body of the generation loop, from the values of
  \<open>currentPeriodStart\<close> and \<open>newPayments\<close> at its start to their values at its end.
  The local variables \<open>periodEnd\<close> and \<open>amount\<close> carry a prime, the plain names being the
  fields of \<open>Payment\<close>.  \<open>crypto.randomUUID()\<close> is a supply of identifiers: the call that
  builds the record number \<open>k\<close> of the output returns \<open>randomUUID k\<close>.  The supply and the
  local time zone \<open>z\<close> are the two things that the function takes from its runtime.
\<close>

definition loop_body ::
  "(nat \<Rightarrow> string) \<Rightarrow> zone \<Rightarrow> string \<Rightarrow> Course \<Rightarrow> Date \<Rightarrow> Payment list \<Rightarrow> nat \<Rightarrow> Date \<Rightarrow> Payment list
     \<Rightarrow> error + (Date \<times> Payment list)" where
  "loop_body randomUUID z sid course joinDate existingPayments i currentPeriodStart newPayments =
     (let periodEnd' = advance z (period course) currentPeriodStart;
          effectiveStart = effectiveStart_of joinDate currentPeriodStart
      in if date_ge effectiveStart periodEnd' then Inr (periodEnd', newPayments)
         else
           let amount' = cycle_amount (fee course) i joinDate currentPeriodStart periodEnd'
           in case some_exists sid (id_c course) effectiveStart existingPayments of
                Inl e \<Rightarrow> Inl e
              | Inr exists \<Rightarrow>
                  if \<not> exists
                  then (case toISODate effectiveStart of
                          Inl e \<Rightarrow> Inl e
                        | Inr ps \<Rightarrow>
                            (case toISODate periodEnd' of
                               Inl e \<Rightarrow> Inl e
                             | Inr pe \<Rightarrow>
                                 Inr (periodEnd',
                                      newPayments @
                                      [\<lparr>id_p = randomUUID (length newPayments),
                                        studentId = sid,
                                        courseId = id_c course,
                                        periodStart = ps,
                                        periodEnd = pe,
                                        amount = amount',
                                        status = pending,
                                        dueDate = pe,
                                        paidDate = None\<rparr>])))
                  else Inr (periodEnd', newPayments))"

text \<open>\<open>for (let i = 0; i < periodsToGenerate; i++) { ... }\<close>\<close>

function for_loop ::
  "(nat \<Rightarrow> string) \<Rightarrow> zone \<Rightarrow> string \<Rightarrow> Course \<Rightarrow> Date \<Rightarrow> Payment list \<Rightarrow> nat \<Rightarrow> nat \<Rightarrow> Date \<Rightarrow> Payment list
     \<Rightarrow> error + (Date \<times> Payment list)" where
  "for_loop randomUUID z sid course joinDate existingPayments n i currentPeriodStart newPayments =
     (if i < n
      then (case loop_body randomUUID z sid course joinDate existingPayments i
                   currentPeriodStart newPayments of
              Inl e \<Rightarrow> Inl e
            | Inr (currentPeriodStart', newPayments') \<Rightarrow>
                for_loop randomUUID z sid course joinDate existingPayments n (i + 1)
                  currentPeriodStart' newPayments')
      else Inr (currentPeriodStart, newPayments))"
  by pat_completeness auto
termination
  by (relation "measure (\<lambda>(u, z, sid, c, j, e, n, i, s, np). n - i)") auto

declare for_loop.simps [simp del]

section \<open>Calendar arithmetic\<close>

lemma div_bounds:
  assumes "0 < n"
  shows "n * ((a::int) div n) \<le> a" and "a < n * (a div n) + n"
proof -
  have "a = n * (a div n) + a mod n" by simp
  moreover have "0 \<le> a mod n" "a mod n < n" using assms by simp_all
  ultimately show "n * (a div n) \<le> a" and "a < n * (a div n) + n" by linarith+
qed

lemma div_step:
  assumes "0 < n"
  shows "((a::int) + 1) div n = (if (a + 1) mod n = 0 then a div n + 1 else a div n)"
proof -
  define q r where "q = a div n" and "r = a mod n"
  have a: "a = n * q + r" and r: "0 \<le> r" "r < n"
    using assms by (simp_all add: q_def r_def)
  show ?thesis
  proof (cases "r + 1 = n")
    case True
    then have e: "a + 1 = n * (q + 1) + 0" using a by (simp add: algebra_simps)
    have z: "(0::int) \<le> 0" by simp
    have "(a + 1) div n = q + 1" using e z assms by (rule int_div_pos_eq)
    moreover have "(a + 1) mod n = 0" using e z assms by (rule int_mod_pos_eq)
    ultimately show ?thesis by (simp add: q_def)
  next
    case False
    then have lt: "r + 1 < n" using r by simp
    have e: "a + 1 = n * q + (r + 1)" using a by simp
    have r1: "0 \<le> r + 1" using r by simp
    have "(a + 1) div n = q" using e r1 lt by (rule int_div_pos_eq)
    moreover have "(a + 1) mod n = r + 1" using e r1 lt by (rule int_mod_pos_eq)
    ultimately show ?thesis using r by (simp add: q_def)
  qed
qed

lemma mod_shift: "((y::int) - k * n) mod n = y mod n"
  using mod_mult_self1 [of y "- k" n] by simp

lemma mod_dvd: "n dvd m \<Longrightarrow> (y::int) mod m = 0 \<Longrightarrow> y mod n = 0"
  by (auto simp: mod_eq_0_iff_dvd elim: dvd_trans)

lemma DayFromYear_Suc: "DayFromYear (y + 1) = DayFromYear y + DaysInYear y"
proof -
  have m4: "(y - 1969 + 1) mod 4 = 0 \<longleftrightarrow> y mod 4 = 0"
    using mod_shift [of y 492 4] by simp
  have m100: "(y - 1901 + 1) mod 100 = 0 \<longleftrightarrow> y mod 100 = 0"
    using mod_shift [of y 19 100] by simp
  have m400: "(y - 1601 + 1) mod 400 = 0 \<longleftrightarrow> y mod 400 = 0"
    using mod_shift [of y 4 400] by simp
  have a: "(y + 1 - 1969) div 4 =
      (if y mod 4 = 0 then (y - 1969) div 4 + 1 else (y - 1969) div 4)"
    using div_step [of 4 "y - 1969"] m4 by (simp add: algebra_simps)
  have b: "(y + 1 - 1901) div 100 =
      (if y mod 100 = 0 then (y - 1901) div 100 + 1 else (y - 1901) div 100)"
    using div_step [of 100 "y - 1901"] m100 by (simp add: algebra_simps)
  have c: "(y + 1 - 1601) div 400 =
      (if y mod 400 = 0 then (y - 1601) div 400 + 1 else (y - 1601) div 400)"
    using div_step [of 400 "y - 1601"] m400 by (simp add: algebra_simps)
  have "y mod 100 = 0 \<Longrightarrow> y mod 4 = 0" by (rule mod_dvd [of 4 100]) simp_all
  moreover have "y mod 400 = 0 \<Longrightarrow> y mod 100 = 0" by (rule mod_dvd [of 100 400]) simp_all
  ultimately show ?thesis
    unfolding DayFromYear_def DaysInYear_def a b c by auto
qed

lemma DayFromYear_bounds:
  "146097 * (y - 1970) - 607 < 400 * DayFromYear y"
  "400 * DayFromYear y < 146097 * (y - 1970) + 593"
proof -
  define A B C where "A = (y - 1969) div 4" and "B = (y - 1901) div 100"
    and "C = (y - 1601) div 400"
  have "4 * A \<le> y - 1969" "y - 1969 < 4 * A + 4"
    unfolding A_def by (rule div_bounds, simp)+
  moreover have "100 * B \<le> y - 1901" "y - 1901 < 100 * B + 100"
    unfolding B_def by (rule div_bounds, simp)+
  moreover have "400 * C \<le> y - 1601" "y - 1601 < 400 * C + 400"
    unfolding C_def by (rule div_bounds, simp)+
  moreover have "DayFromYear y = 365 * (y - 1970) + A - B + C"
    by (simp add: DayFromYear_def A_def B_def C_def)
  ultimately show "146097 * (y - 1970) - 607 < 400 * DayFromYear y"
    and "400 * DayFromYear y < 146097 * (y - 1970) + 593"
    by simp_all
qed

lemma YearFromDay_estimate:
  fixes d :: int
  defines "y \<equiv> 1970 + (400 * d) div 146097"
  shows "146097 * (y - 1970) \<le> 400 * d" and "400 * d < 146097 * (y - 1970) + 146097"
proof -
  define q where "q = (400 * d) div 146097"
  have "146097 * q \<le> 400 * d" "400 * d < 146097 * q + 146097"
    unfolding q_def by (rule div_bounds, simp)+
  moreover have "y = 1970 + q" by (simp add: y_def q_def)
  ultimately show "146097 * (y - 1970) \<le> 400 * d"
    and "400 * d < 146097 * (y - 1970) + 146097"
    by simp_all
qed

text \<open>\<open>YearFromDay d\<close> is the year whose days include day \<open>d\<close>.\<close>

lemma YearFromDay_lower: "DayFromYear (YearFromDay d) \<le> d"
proof -
  define y where "y = 1970 + (400 * d) div 146097"
  have "146097 * (y - 1970) \<le> 400 * d" unfolding y_def by (rule YearFromDay_estimate)
  moreover have "400 * DayFromYear (y - 1) < 146097 * (y - 1 - 1970) + 593"
    by (rule DayFromYear_bounds)
  ultimately have "DayFromYear (y - 1) \<le> d" by simp
  then show ?thesis
    unfolding YearFromDay_def Let_def y_def [symmetric] by simp
qed

lemma YearFromDay_upper: "d < DayFromYear (YearFromDay d + 1)"
proof -
  define y where "y = 1970 + (400 * d) div 146097"
  have "400 * d < 146097 * (y - 1970) + 146097" unfolding y_def by (rule YearFromDay_estimate)
  moreover have "146097 * (y + 2 - 1970) - 607 < 400 * DayFromYear (y + 2)"
    by (rule DayFromYear_bounds)
  ultimately have "d < DayFromYear (y + 2)" by simp
  then show ?thesis
    unfolding YearFromDay_def Let_def y_def [symmetric] by (simp add: algebra_simps)
qed

lemma DaysInYear_cases: "DaysInYear y = 365 \<or> DaysInYear y = 366"
  by (simp add: DaysInYear_def)

lemma MonthFromTime_range: "0 \<le> MonthFromTime t" "MonthFromTime t \<le> 11"
  by (simp_all add: MonthFromTime_def Let_def)

lemma DateFromTime_eq:
  "DateFromTime t = DayWithinYear t - MonthStart (YearFromTime t) (MonthFromTime t) + 1"
  by (simp add: DateFromTime_def MonthStart_def InLeapYear_def Let_def)

lemma MakeDay_fields:
  "MakeDay (YearFromTime t) (MonthFromTime t) (DateFromTime t + k) = Day t + k"
proof -
  have "MonthFromTime t div 12 = 0" "MonthFromTime t mod 12 = MonthFromTime t"
    using MonthFromTime_range [of t] by simp_all
  then show ?thesis
    by (simp add: MakeDay_def DateFromTime_eq DayWithinYear_def)
qed

lemma MonthStart_step:
  assumes "0 \<le> m" "m \<le> 10"
  shows "MonthStart y m + 28 \<le> MonthStart y (m + 1)"
proof -
  from assms have "m = 0 \<or> m = 1 \<or> m = 2 \<or> m = 3 \<or> m = 4 \<or> m = 5 \<or> m = 6 \<or> m = 7
      \<or> m = 8 \<or> m = 9 \<or> m = 10"
    by arith
  then show ?thesis
    by (auto simp: MonthStart_def)
qed

lemma MonthStart_bounds:
  assumes "0 \<le> m" "m \<le> 11"
  shows "0 \<le> MonthStart y m" "MonthStart y m \<le> 335"
  using assms by (auto simp: MonthStart_def Let_def)

lemma MonthStart_year: "MonthStart y m \<le> MonthStart y' m + 1"
  by (simp add: MonthStart_def Let_def)

text \<open>
  A step of a month is a step of at least 28 days, and a step of a year one of at least
  364 days.
\<close>

lemma MakeDay_next_month:
  "Day t + 28 \<le> MakeDay (YearFromTime t) (MonthFromTime t + 1) (DateFromTime t)"
proof (cases "MonthFromTime t = 11")
  case True
  have "MonthStart (YearFromTime t) 11 \<le> 335"
    by (rule MonthStart_bounds) simp_all
  moreover have "365 \<le> DaysInYear (YearFromTime t)"
    using DaysInYear_cases [of "YearFromTime t"] by auto
  moreover have "MonthStart (YearFromTime t + 1) 0 = 0"
    by (simp add: MonthStart_def)
  ultimately show ?thesis
    using True
    by (simp add: MakeDay_def DateFromTime_eq DayWithinYear_def DayFromYear_Suc Let_def)
next
  case False
  then have r: "0 \<le> MonthFromTime t" "MonthFromTime t \<le> 10"
    using MonthFromTime_range [of t] by simp_all
  then have "(MonthFromTime t + 1) div 12 = 0" "(MonthFromTime t + 1) mod 12 = MonthFromTime t + 1"
    by simp_all
  then show ?thesis
    using MonthStart_step [OF r, of "YearFromTime t"]
    by (simp add: MakeDay_def DateFromTime_eq DayWithinYear_def Let_def)
qed

lemma MakeDay_next_year:
  "Day t + 364 \<le> MakeDay (YearFromTime t + 1) (MonthFromTime t) (DateFromTime t)"
proof -
  have "MonthFromTime t div 12 = 0" "MonthFromTime t mod 12 = MonthFromTime t"
    using MonthFromTime_range [of t] by simp_all
  moreover have "365 \<le> DaysInYear (YearFromTime t)"
    using DaysInYear_cases [of "YearFromTime t"] by auto
  moreover have "MonthStart (YearFromTime t) (MonthFromTime t)
      \<le> MonthStart (YearFromTime t + 1) (MonthFromTime t) + 1"
    by (rule MonthStart_year)
  ultimately show ?thesis
    by (simp add: MakeDay_def DateFromTime_eq DayWithinYear_def DayFromYear_Suc Let_def)
qed

lemma TimeWithinDay_range: "0 \<le> TimeWithinDay t" "TimeWithinDay t < msPerDay"
  by (simp_all add: TimeWithinDay_def msPerDay_def)

lemma Day_MakeDate:
  assumes "0 \<le> r" "r < msPerDay"
  shows "Day (MakeDate d r) = d" and "TimeWithinDay (MakeDate d r) = r"
proof -
  have e: "MakeDate d r = msPerDay * d + r" by (simp add: MakeDate_def)
  show "Day (MakeDate d r) = d"
    unfolding Day_def using e assms by (rule int_div_pos_eq)
  show "TimeWithinDay (MakeDate d r) = r"
    unfolding TimeWithinDay_def using e assms by (rule int_mod_pos_eq)
qed

lemma MakeDate_Day: "MakeDate (Day t) (TimeWithinDay t) = t"
  by (simp add: MakeDate_def Day_def TimeWithinDay_def)

lemma Day_less_imp_less:
  assumes "Day a < Day b"
  shows "a < b"
proof -
  have "a < msPerDay * (Day a) + msPerDay"
    unfolding Day_def by (rule div_bounds) (simp add: msPerDay_def)
  moreover have "msPerDay * (Day b) \<le> b"
    unfolding Day_def by (rule div_bounds) (simp add: msPerDay_def)
  moreover have "msPerDay * (Day a) + msPerDay \<le> msPerDay * (Day b)"
    using assms by (simp add: msPerDay_def)
  ultimately show ?thesis by linarith
qed

lemma Day_mono: "a \<le> b \<Longrightarrow> Day a \<le> Day b"
  unfolding Day_def by (rule zdiv_mono1) (simp_all add: msPerDay_def)

lemma Day_add_days: "Day (t + k * msPerDay) = Day t + k"
  by (simp add: Day_def msPerDay_def)

subsection \<open>The steps in a time zone\<close>

text \<open>
  Each of the three steps moves the local time by at least seven days and keeps its time
  within the day.  The two offsets of the zone take at most a day each from that, so the
  date that a step returns is at least five days later than the date it was given, in
  every time zone.
\<close>

lemma zone_offset_range: "- msPerDay \<le> zone_offset x" "zone_offset x \<le> msPerDay"
  by (simp_all add: zone_offset_def msPerDay_def)

lemma zone_offset_id: "- msPerDay \<le> x \<Longrightarrow> x \<le> msPerDay \<Longrightarrow> zone_offset x = x"
  by (simp add: zone_offset_def)

text \<open>
  The clock changes of \<open>zone_Berlin\<close> are at 01:00 UTC of the last Sunday of March and of
  October, and its two offset functions fit together: a time value that is turned into
  local time and back is unchanged, except in the hour after the change of October, whose
  local times have occurred once before.
\<close>

lemma zone_Berlin_changes:
  "MakeDate (MakeDay 2024 2 31) 3600000 = 1711846800000"
  "MakeDate (MakeDay 2024 9 27) 3600000 = 1729990800000"
  "MakeDate (MakeDay 2025 2 30) 3600000 = 1743296400000"
  by code_simp+

lemma zone_Berlin_round_trip:
  assumes "t < 1729990800000 \<or> 1729990800000 + 3600000 \<le> t"
  shows "UTC zone_Berlin (LocalTime zone_Berlin t) = t"
  using assms
  by (auto simp: UTC_def LocalTime_def zone_Berlin_def zone_offset_def msPerDay_def)

lemma UTC_MakeDate_later:
  assumes "Day (LocalTime z t) + 7 \<le> d"
  shows "t + 5 * msPerDay \<le> UTC z (MakeDate d (TimeWithinDay (LocalTime z t)))"
proof -
  define l where "l = LocalTime z t"
  define r where "r = MakeDate d (TimeWithinDay l)"
  have "MakeDate (Day l) (TimeWithinDay l) = l"
    by (rule MakeDate_Day)
  then have "l + 7 * msPerDay \<le> r"
    using assms by (simp add: MakeDate_def l_def r_def msPerDay_def)
  moreover have "t - msPerDay \<le> l"
    using zone_offset_range [of "offset_at z t"] by (simp add: l_def LocalTime_def)
  moreover have "r - msPerDay \<le> UTC z r"
    using zone_offset_range [of "offset_of_local z r"] by (simp add: UTC_def)
  ultimately have "t + 5 * msPerDay \<le> UTC z r"
    by (simp add: msPerDay_def)
  then show ?thesis
    by (simp add: r_def l_def)
qed

lemma advance_Some:
  "\<exists>t'. advance z p (Some t) = Some t' \<and> t + 5 * msPerDay \<le> t'"
proof -
  define l where "l = LocalTime z t"
  have w: "Day l + 7 \<le> MakeDay (YearFromTime l) (MonthFromTime l) (DateFromTime l + 7)"
    by (simp add: MakeDay_fields)
  have m: "Day l + 7 \<le> MakeDay (YearFromTime l) (MonthFromTime l + 1) (DateFromTime l)"
    using MakeDay_next_month [of l] by simp
  have y: "Day l + 7 \<le> MakeDay (YearFromTime l + 1) (MonthFromTime l) (DateFromTime l)"
    using MakeDay_next_year [of l] by simp
  show ?thesis
    using UTC_MakeDate_later [OF w [unfolded l_def]] UTC_MakeDate_later [OF m [unfolded l_def]]
      UTC_MakeDate_later [OF y [unfolded l_def]]
    by (simp add: advance_def addDays_def addMonths_def addYears_def Let_def)
qed

lemma advance_None [simp]: "advance z p None = None"
  by (simp add: advance_def addDays_def addMonths_def addYears_def)

section \<open>The alignment loop and the generator\<close>

text \<open>
  \<^verbatim>\<open>while (cycleStart <= joinDate) {
    nextCycle = ...; if (nextCycle > joinDate) break; cycleStart = nextCycle; }\<close>
  The value of the function is the value of \<open>cycleStart\<close> when the loop is left.  The loop
  ends, in every time zone, because every step moves \<open>cycleStart\<close> to a later date and the
  join date bounds it.
\<close>

function cycle_alignment :: "zone \<Rightarrow> string \<Rightarrow> Date \<Rightarrow> Date \<Rightarrow> Date" where
  "cycle_alignment z p joinDate cycleStart =
     (if date_le cycleStart joinDate
      then (let nextCycle = advance z p cycleStart
            in if date_gt nextCycle joinDate then cycleStart
               else cycle_alignment z p joinDate nextCycle)
      else cycleStart)"
  by pat_completeness auto
termination
proof (relation "measure (\<lambda>(z, p, joinDate, cycleStart).
    case (joinDate, cycleStart) of (Some j, Some c) \<Rightarrow> nat (j - c + 1) | _ \<Rightarrow> 0)")
  show "wf (measure (\<lambda>(z, p, joinDate, cycleStart).
    case (joinDate, cycleStart) of (Some j, Some c) \<Rightarrow> nat (j - c + 1) | _ \<Rightarrow> 0))"
    by simp
next
  fix z :: zone and p :: string and joinDate cycleStart nextCycle :: Date
  assume le: "date_le cycleStart joinDate"
    and nx: "nextCycle = advance z p cycleStart"
    and gt: "\<not> date_gt nextCycle joinDate"
  from le obtain c j where c: "cycleStart = Some c" and j: "joinDate = Some j" and cj: "c \<le> j"
    by (cases cycleStart; cases joinDate) auto
  from advance_Some [of z p c] obtain n where n: "advance z p (Some c) = Some n"
    and "c + 5 * msPerDay \<le> n"
    by blast
  then have "c < n" by (simp add: msPerDay_def)
  moreover have "n \<le> j" using gt nx c j n by (simp add: date_gt_def)
  ultimately show "((z, p, joinDate, nextCycle), (z, p, joinDate, cycleStart))
      \<in> measure (\<lambda>(z, p, joinDate, cycleStart).
          case (joinDate, cycleStart) of (Some j, Some c) \<Rightarrow> nat (j - c + 1) | _ \<Rightarrow> 0)"
    using nx c j n by simp
qed

declare cycle_alignment.simps [simp del]

definition generatePaymentsForEnrollment ::
  "(nat \<Rightarrow> string) \<Rightarrow> zone \<Rightarrow> string \<Rightarrow> Course \<Rightarrow> datestr \<Rightarrow> Payment list \<Rightarrow> error + Payment list" where
  "generatePaymentsForEnrollment randomUUID z studentId' course joinDateStr existingPayments =
     (let joinDate = Date_new joinDateStr;
          courseStartDate = Date_new (startDate course);
          cycleStart = cycle_alignment z (period course) joinDate courseStartDate
      in case for_loop randomUUID z studentId' course joinDate existingPayments
                (periodsToGenerate (period course)) 0 cycleStart [] of
           Inl e \<Rightarrow> Inl e
         | Inr (currentPeriodStart, newPayments) \<Rightarrow> Inr newPayments)"

section \<open>What the loops compute\<close>

subsection \<open>The calendar date of a time value\<close>

definition ISODate :: "int \<Rightarrow> string" where
  "ISODate t =
     year_string (YearFromTime t) @ ''-'' @ pad 2 (MonthFromTime t + 1) @ ''-''
     @ pad 2 (DateFromTime t)"

lemma digit_char_mod: "digit_char (n mod 10) \<in> set ''0123456789''"
proof -
  have "0 \<le> n mod 10" "n mod 10 < 10" by simp_all
  then have "nat (n mod 10) < length ''0123456789''" by simp
  then show ?thesis unfolding digit_char_def by (rule nth_mem)
qed

lemma pad_digits: "set (pad w n) \<subseteq> set ''0123456789''"
  unfolding pad_def using digit_char_mod by auto

lemma pad_no_T: "CHR ''T'' \<notin> set (pad w n)"
  using pad_digits [of w n] by auto

lemma ISODate_no_T: "CHR ''T'' \<notin> set (ISODate t)"
  by (simp add: ISODate_def year_string_def pad_no_T)

lemma takeWhile_neq_append:
  "c \<notin> set xs \<Longrightarrow> takeWhile (\<lambda>x. x \<noteq> c) (xs @ ys) = xs @ takeWhile (\<lambda>x. x \<noteq> c) ys"
  by (induction xs) auto

lemma toISODate_Some: "toISODate (Some t) = Inr (ISODate t)"
proof -
  have "toISOString (Some t) = Inr (ISODate t @ CHR ''T'' # pad 2 (HourFromTime t) @ '':''
      @ pad 2 (MinFromTime t) @ '':'' @ pad 2 (SecFromTime t) @ ''.''
      @ pad 3 (msFromTime t) @ ''Z'')"
    by (simp add: toISOString_def ISODate_def)
  moreover have "takeWhile (\<lambda>c. c \<noteq> CHR ''T'') (ISODate t @ CHR ''T'' # r) = ISODate t" for r
    using ISODate_no_T [of t] by (simp add: takeWhile_neq_append)
  ultimately show ?thesis
    by (simp add: toISODate_def split_T_0_def)
qed

lemma toISODate_None: "toISODate None = Inl RangeError"
  by (simp add: toISODate_def toISOString_def)

lemma split_T_0_prefix: "prefix (ISODate t) s \<longleftrightarrow> prefix (ISODate t) (split_T_0 s)"
proof
  assume "prefix (ISODate t) s"
  then obtain r where "s = ISODate t @ r" by (auto simp: prefix_def)
  then show "prefix (ISODate t) (split_T_0 s)"
    using ISODate_no_T [of t] by (simp add: split_T_0_def takeWhile_neq_append)
next
  assume "prefix (ISODate t) (split_T_0 s)"
  moreover have "prefix (split_T_0 s) s"
    unfolding split_T_0_def by (rule takeWhile_is_prefix)
  ultimately show "prefix (ISODate t) s" by (rule prefix_order.trans)
qed

subsection \<open>A calendar date names one day\<close>

text \<open>
  The printed calendar date determines the day, for every year that \<open>toISOString\<close> can
  print (ECMAScript time values reach from the year -271821 to the year 275760): two time
  values with the same printed date lie on the same day.  The claims below speak about
  the order of the days behind the printed dates of the records.
\<close>

lemma digit_char_inj:
  assumes "digit_char a = digit_char b" "0 \<le> a" "a < 10" "0 \<le> b" "b < 10"
  shows "a = b"
proof -
  have "distinct ''0123456789''" by simp
  moreover have "nat a < length ''0123456789''" "nat b < length ''0123456789''"
    using assms by simp_all
  ultimately have "nat a = nat b"
    using assms(1) unfolding digit_char_def by (simp only: nth_eq_iff_index_eq)
  then show ?thesis using assms by simp
qed

lemma pad_Suc: "pad (Suc w) n = digit_char (n div 10 ^ w mod 10) # pad w n"
  by (simp add: pad_def)

lemma length_pad [simp]: "length (pad w n) = w"
  by (simp add: pad_def)

lemma pad_eq_mod: "pad w n = pad w m \<Longrightarrow> n mod 10 ^ w = m mod 10 ^ w"
proof (induction w)
  case 0
  then show ?case by simp
next
  case (Suc w)
  then have d: "digit_char (n div 10 ^ w mod 10) = digit_char (m div 10 ^ w mod 10)"
    and r: "n mod 10 ^ w = m mod 10 ^ w"
    by (simp_all add: pad_Suc)
  have "n div 10 ^ w mod 10 = m div 10 ^ w mod 10"
    using d by (rule digit_char_inj) simp_all
  moreover have "k mod 10 ^ Suc w = 10 ^ w * (k div 10 ^ w mod 10) + k mod 10 ^ w" for k :: int
    using zmod_zmult2_eq [of 10 k "10 ^ w"] by (simp add: mult.commute)
  ultimately show ?case using r by simp
qed

lemma pad_inj:
  assumes "pad w n = pad w m" "0 \<le> n" "n < 10 ^ w" "0 \<le> m" "m < 10 ^ w"
  shows "n = m"
  using pad_eq_mod [OF assms(1)] assms(2-5) by simp

lemma year_string_inj:
  assumes "year_string y = year_string z" "\<bar>y\<bar> < 1000000" "\<bar>z\<bar> < 1000000"
  shows "y = z"
proof (cases "0 \<le> y \<and> y \<le> 9999")
  case True
  then have "length (year_string y) = 4" by (simp add: year_string_def)
  then have z: "0 \<le> z \<and> z \<le> 9999"
    using assms(1) by (auto simp: year_string_def split: if_splits)
  then have "pad 4 y = pad 4 z"
    using assms(1) True by (simp add: year_string_def)
  then show ?thesis
    using True z by (intro pad_inj [of 4]) simp_all
next
  case False
  then have "length (year_string y) = 7" by (simp add: year_string_def)
  then have z: "\<not> (0 \<le> z \<and> z \<le> 9999)"
    using assms(1) by (auto simp: year_string_def split: if_splits)
  then have s: "(y < 0) = (z < 0)" and p: "pad 6 \<bar>y\<bar> = pad 6 \<bar>z\<bar>"
    using assms(1) False by (auto simp: year_string_def split: if_splits)
  have "\<bar>y\<bar> = \<bar>z\<bar>"
    using p assms(2,3) by (intro pad_inj [of 6]) simp_all
  then show ?thesis using s by auto
qed

lemma DayWithinYear_range:
  "0 \<le> DayWithinYear t" "DayWithinYear t < DaysInYear (YearFromTime t)"
  using YearFromDay_lower [of "Day t"] YearFromDay_upper [of "Day t"]
  by (simp_all add: DayWithinYear_def YearFromTime_def DayFromYear_Suc)

lemma DateFromTime_range: "1 \<le> DateFromTime t \<and> DateFromTime t \<le> 31"
proof -
  define d l where "d = DayWithinYear t" and "l = InLeapYear t"
  have dl: "DayWithinYear t = d" "InLeapYear t = l"
    by (simp_all add: d_def l_def)
  have l: "l = 0 \<or> l = 1"
    by (simp add: l_def InLeapYear_def)
  have "DaysInYear (YearFromTime t) = 365 + l"
    using DaysInYear_cases [of "YearFromTime t"] by (auto simp: l_def InLeapYear_def)
  then have d: "0 \<le> d" "d < 365 + l"
    using DayWithinYear_range [of t] by (simp_all add: d_def)
  consider "d < 31" | "31 \<le> d" "d < 59 + l" | "59 + l \<le> d" "d < 90 + l"
    | "90 + l \<le> d" "d < 120 + l" | "120 + l \<le> d" "d < 151 + l"
    | "151 + l \<le> d" "d < 181 + l" | "181 + l \<le> d" "d < 212 + l"
    | "212 + l \<le> d" "d < 243 + l" | "243 + l \<le> d" "d < 273 + l"
    | "273 + l \<le> d" "d < 304 + l" | "304 + l \<le> d" "d < 334 + l"
    | "334 + l \<le> d"
    by linarith
  then show ?thesis
    using d l
    by cases (auto simp: DateFromTime_def MonthFromTime_def Let_def dl)
qed

lemma ISODate_inj:
  assumes "ISODate a = ISODate b"
    and "\<bar>YearFromTime a\<bar> < 1000000" "\<bar>YearFromTime b\<bar> < 1000000"
  shows "Day a = Day b"
proof -
  have len: "length (year_string (YearFromTime a)) = length (year_string (YearFromTime b))"
    using arg_cong [OF assms(1), of length] by (simp add: ISODate_def)
  have parts: "year_string (YearFromTime a) = year_string (YearFromTime b)
      \<and> pad 2 (MonthFromTime a + 1) = pad 2 (MonthFromTime b + 1)
      \<and> pad 2 (DateFromTime a) = pad 2 (DateFromTime b)"
    using assms(1) len unfolding ISODate_def by simp
  have y: "YearFromTime a = YearFromTime b"
    using parts assms(2,3) by (intro year_string_inj) simp_all
  have m: "MonthFromTime a + 1 = MonthFromTime b + 1"
    using parts MonthFromTime_range [of a] MonthFromTime_range [of b]
    by (intro pad_inj [of 2]) simp_all
  have d: "DateFromTime a = DateFromTime b"
    using parts DateFromTime_range [of a] DateFromTime_range [of b]
    by (intro pad_inj [of 2]) simp_all
  have "Day a = MakeDay (YearFromTime a) (MonthFromTime a) (DateFromTime a + 0)"
    by (simp only: MakeDay_fields)
  also have "\<dots> = MakeDay (YearFromTime b) (MonthFromTime b) (DateFromTime b + 0)"
    using y m d by simp
  also have "\<dots> = Day b"
    by (simp only: MakeDay_fields)
  finally show ?thesis .
qed

text \<open>
  The duplicate check asks whether a \<open>periodStart\<close> begins with a printed date.  For a
  \<open>periodStart\<close> that is itself a printed date, alone or followed by the time of day
  (\<open>T00:00:00.000Z\<close>) as the server returns it, that is the equality of the two days.
\<close>

lemma ISODate_Day:
  assumes "Day a = Day b"
  shows "ISODate a = ISODate b"
proof -
  have y: "YearFromTime a = YearFromTime b"
    using assms by (simp only: YearFromTime_def)
  have w: "DayWithinYear a = DayWithinYear b"
    using assms y by (simp only: DayWithinYear_def)
  have l: "InLeapYear a = InLeapYear b"
    using y by (simp only: InLeapYear_def)
  have m: "MonthFromTime a = MonthFromTime b"
    using w l by (simp only: MonthFromTime_def)
  have d: "DateFromTime a = DateFromTime b"
    using w l m by (simp only: DateFromTime_def)
  show ?thesis
    using y m d by (simp only: ISODate_def)
qed

lemma ISODate_form:
  "\<exists>c cs. ISODate t = c # cs
     \<and> (if 0 \<le> YearFromTime t \<and> YearFromTime t \<le> 9999
        then c \<in> set ''0123456789'' \<and> length cs = 9
        else (c = CHR ''-'' \<or> c = CHR ''+'') \<and> length cs = 12)"
proof (cases "0 \<le> YearFromTime t \<and> YearFromTime t \<le> 9999")
  case True
  have "pad 4 (YearFromTime t)
      = digit_char (YearFromTime t div 10 ^ 3 mod 10) # pad 3 (YearFromTime t)"
    using pad_Suc [of 3 "YearFromTime t"] by simp
  then have "ISODate t = digit_char (YearFromTime t div 10 ^ 3 mod 10)
      # (pad 3 (YearFromTime t) @ ''-'' @ pad 2 (MonthFromTime t + 1) @ ''-''
         @ pad 2 (DateFromTime t))"
    using True by (simp add: ISODate_def year_string_def)
  moreover have "length (pad 3 (YearFromTime t) @ ''-'' @ pad 2 (MonthFromTime t + 1) @ ''-''
         @ pad 2 (DateFromTime t)) = 9"
    by simp
  ultimately show ?thesis
    using True digit_char_mod [of "YearFromTime t div 10 ^ 3"]
    by (intro exI [of _ "digit_char (YearFromTime t div 10 ^ 3 mod 10)"]
        exI [of _ "pad 3 (YearFromTime t) @ ''-'' @ pad 2 (MonthFromTime t + 1) @ ''-''
          @ pad 2 (DateFromTime t)"]) (simp only: if_True simp_thms)
next
  case False
  then have "ISODate t = (if YearFromTime t < 0 then CHR ''-'' else CHR ''+'')
      # (pad 6 \<bar>YearFromTime t\<bar> @ ''-'' @ pad 2 (MonthFromTime t + 1) @ ''-''
         @ pad 2 (DateFromTime t))"
    by (auto simp: ISODate_def year_string_def)
  moreover have "length (pad 6 \<bar>YearFromTime t\<bar> @ ''-'' @ pad 2 (MonthFromTime t + 1) @ ''-''
         @ pad 2 (DateFromTime t)) = 12"
    by simp
  ultimately show ?thesis
    using False
    by (intro exI [of _ "if YearFromTime t < 0 then CHR ''-'' else CHR ''+''"]
        exI [of _ "pad 6 \<bar>YearFromTime t\<bar> @ ''-'' @ pad 2 (MonthFromTime t + 1) @ ''-''
          @ pad 2 (DateFromTime t)"]) (simp only: if_False simp_thms split: if_split)
qed

lemma prefix_same_length:
  assumes "prefix xs (ys @ r)" "length xs = length ys"
  shows "xs = ys"
  using assms by (auto simp: prefix_def append_eq_append_conv)

lemma prefix_ISODate:
  assumes "prefix (ISODate a) (ISODate b @ r)"
  shows "ISODate a = ISODate b"
proof -
  obtain c cs where a: "ISODate a = c # cs"
    and fa: "if 0 \<le> YearFromTime a \<and> YearFromTime a \<le> 9999
        then c \<in> set ''0123456789'' \<and> length cs = 9
        else (c = CHR ''-'' \<or> c = CHR ''+'') \<and> length cs = 12"
    using ISODate_form [of a] by blast
  obtain d ds where b: "ISODate b = d # ds"
    and fb: "if 0 \<le> YearFromTime b \<and> YearFromTime b \<le> 9999
        then d \<in> set ''0123456789'' \<and> length ds = 9
        else (d = CHR ''-'' \<or> d = CHR ''+'') \<and> length ds = 12"
    using ISODate_form [of b] by blast
  have cd: "c = d"
    using assms unfolding a b by simp
  have "length cs = length ds"
  proof (cases "0 \<le> YearFromTime a \<and> YearFromTime a \<le> 9999")
    case True
    then have "c \<in> set ''0123456789''" "length cs = 9" using fa by simp_all
    then have "d \<noteq> CHR ''-''" "d \<noteq> CHR ''+''" using cd by auto
    then have "length ds = 9" using fb by (simp split: if_splits)
    then show ?thesis using \<open>length cs = 9\<close> by simp
  next
    case False
    then have "c = CHR ''-'' \<or> c = CHR ''+''" "length cs = 12" using fa by simp_all
    then have "d \<notin> set ''0123456789''" using cd by auto
    then have "length ds = 12" using fb by (simp split: if_splits)
    then show ?thesis using \<open>length cs = 12\<close> by simp
  qed
  then have "length (ISODate a) = length (ISODate b)"
    by (simp add: a b)
  with assms show ?thesis by (rule prefix_same_length)
qed

lemma prefix_ISODate_iff:
  assumes "\<bar>YearFromTime a\<bar> < 1000000" "\<bar>YearFromTime b\<bar> < 1000000"
  shows "prefix (ISODate a) (ISODate b @ r) \<longleftrightarrow> Day a = Day b"
proof
  assume "prefix (ISODate a) (ISODate b @ r)"
  then have "ISODate a = ISODate b" by (rule prefix_ISODate)
  then show "Day a = Day b" using assms by (rule ISODate_inj)
next
  assume "Day a = Day b"
  then have "ISODate a = ISODate b" by (rule ISODate_Day)
  then show "prefix (ISODate a) (ISODate b @ r)" by simp
qed

subsection \<open>The duplicate check\<close>

text \<open>
  \<open>has_record sid cid existing d\<close>: some record of \<open>existing\<close> has the student \<open>sid\<close>, the
  course \<open>cid\<close> and a \<open>periodStart\<close> that starts with the string \<open>d\<close>.
\<close>

definition has_record :: "string \<Rightarrow> string \<Rightarrow> Payment list \<Rightarrow> string \<Rightarrow> bool" where
  "has_record sid cid existing d =
     list_ex (\<lambda>q. studentId q = sid \<and> courseId q = cid \<and> prefix d (periodStart q)) existing"

lemma some_exists_Some:
  "some_exists sid cid (Some t) existing = Inr (has_record sid cid existing (ISODate t))"
  by (induction existing) (auto simp: has_record_def toISODate_Some)

lemma some_exists_None: "some_exists sid cid None existing \<noteq> Inr True"
  by (induction existing) (simp_all add: toISODate_None)

lemma has_record_append:
  "has_record sid cid (xs @ ys) d \<longleftrightarrow> has_record sid cid xs d \<or> has_record sid cid ys d"
  by (simp add: has_record_def)

subsection \<open>Fresh identifiers\<close>

text \<open>\<open>fresh u k rs\<close> gives the records \<open>rs\<close> the identifiers \<open>u k\<close>, \<open>u (k + 1)\<close>, ...\<close>

fun fresh :: "(nat \<Rightarrow> string) \<Rightarrow> nat \<Rightarrow> Payment list \<Rightarrow> Payment list" where
  "fresh u k [] = []"
| "fresh u k (r # rs) = r\<lparr>id_p := u k\<rparr> # fresh u (Suc k) rs"

lemma length_fresh [simp]: "length (fresh u k rs) = length rs"
  by (induction rs arbitrary: k) simp_all

lemma fresh_append: "fresh u k (xs @ ys) = fresh u k xs @ fresh u (k + length xs) ys"
  by (induction xs arbitrary: k) simp_all

lemma map_fresh:
  assumes "\<And>r s. f (r\<lparr>id_p := s\<rparr>) = f r"
  shows "map f (fresh u k rs) = map f rs"
  by (induction rs arbitrary: k) (simp_all add: assms)

subsection \<open>The candidate of one cycle, and of the cycles of a whole run\<close>

text \<open>
  \<open>candidate z sid c joinDate i t\<close> is what pass \<open>i\<close> of the generation loop builds for the
  cycle that starts at the time value \<open>t\<close>, before the duplicate check and without an
  identifier: no record when the cycle is skipped, one record otherwise.
\<close>

definition cycle_record :: "string \<Rightarrow> Course \<Rightarrow> int \<Rightarrow> int \<Rightarrow> rat \<Rightarrow> Payment" where
  "cycle_record sid c x e a =
     \<lparr>id_p = [], studentId = sid, courseId = id_c c, periodStart = ISODate x,
      periodEnd = ISODate e, amount = a, status = pending, dueDate = ISODate e,
      paidDate = None\<rparr>"

definition candidate :: "zone \<Rightarrow> string \<Rightarrow> Course \<Rightarrow> Date \<Rightarrow> nat \<Rightarrow> int \<Rightarrow> Payment list" where
  "candidate z sid c joinDate i t =
     (case (effectiveStart_of joinDate (Some t), advance z (period c) (Some t)) of
        (Some x, Some e) \<Rightarrow>
          if e \<le> x then []
          else [cycle_record sid c x e (cycle_amount (fee c) i joinDate (Some t) (Some e))]
      | _ \<Rightarrow> [])"

fun candidates :: "zone \<Rightarrow> string \<Rightarrow> Course \<Rightarrow> Date \<Rightarrow> nat \<Rightarrow> nat \<Rightarrow> Date \<Rightarrow> Payment list" where
  "candidates z sid c joinDate 0 i cps = []"
| "candidates z sid c joinDate (Suc k) i cps =
     (case cps of
        None \<Rightarrow> []
      | Some t \<Rightarrow> candidate z sid c joinDate i t
                 @ candidates z sid c joinDate k (Suc i) (advance z (period c) cps))"

lemma effectiveStart_of_Some: "\<exists>x. effectiveStart_of joinDate (Some t) = Some x"
  by (cases joinDate) (simp_all add: effectiveStart_of_def)

lemma loop_body_Some:
  "loop_body u z sid c joinDate existing i (Some t) np =
     Inr (advance z (period c) (Some t),
          np @ fresh u (length np)
                 (filter (\<lambda>r. \<not> has_record sid (id_c c) existing (periodStart r))
                    (candidate z sid c joinDate i t)))"
proof -
  obtain e where e: "advance z (period c) (Some t) = Some e"
    using advance_Some [of z "period c" t] by blast
  obtain x where x: "effectiveStart_of joinDate (Some t) = Some x"
    using effectiveStart_of_Some [of joinDate t] by blast
  show ?thesis
    by (simp add: loop_body_def candidate_def cycle_record_def e x date_ge_def
        some_exists_Some toISODate_Some Let_def)
qed

lemma loop_body_None: "loop_body u z sid c joinDate existing i None np = Inl RangeError"
proof -
  have "effectiveStart_of joinDate None = None" by (simp add: effectiveStart_of_def)
  moreover have "some_exists sid (id_c c) None existing = Inl RangeError
      \<or> some_exists sid (id_c c) None existing = Inr False"
  proof (cases "some_exists sid (id_c c) None existing")
    case (Inl e)
    then show ?thesis by (cases e) simp
  next
    case (Inr b)
    then show ?thesis using some_exists_None [of sid "id_c c" existing] by (cases b) simp_all
  qed
  ultimately show ?thesis
    by (auto simp: loop_body_def date_ge_def toISODate_None)
qed

lemma for_loop_Some:
  "for_loop u z sid c joinDate existing n i (Some t) np =
     Inr ((advance z (period c) ^^ (n - i)) (Some t),
          np @ fresh u (length np)
                 (filter (\<lambda>r. \<not> has_record sid (id_c c) existing (periodStart r))
                    (candidates z sid c joinDate (n - i) i (Some t))))"
proof (induction "n - i" arbitrary: i t np)
  case 0
  then show ?case by (simp add: for_loop.simps)
next
  case (Suc k)
  then have lt: "i < n" and k: "k = n - (i + 1)" and k': "n - Suc i = k"
    and ni: "n - i = Suc k" by simp_all
  obtain e where e: "advance z (period c) (Some t) = Some e"
    using advance_Some [of z "period c" t] by blast
  show ?case
    unfolding for_loop.simps [of u z sid c joinDate existing n i]
    using lt Suc.hyps(1) [OF k, of e] e
    by (simp add: loop_body_Some ni k' funpow_swap1 fresh_append)
qed

lemma for_loop_None:
  "i < n \<Longrightarrow> for_loop u z sid c joinDate existing n i None np = Inl RangeError"
  by (simp add: for_loop.simps [of u z sid c joinDate existing n i] loop_body_None)

lemma periodsToGenerate_pos: "0 < periodsToGenerate p"
  by (simp add: periodsToGenerate_def)

lemma length_candidate: "length (candidate z sid c joinDate i t) \<le> 1"
  by (simp add: candidate_def split: option.split)

lemma length_candidates: "length (candidates z sid c joinDate k i cps) \<le> k"
proof (induction k arbitrary: i cps)
  case 0
  then show ?case by simp
next
  case (Suc k)
  show ?case
  proof (cases cps)
    case None
    then show ?thesis by simp
  next
    case (Some t)
    then show ?thesis
      using length_candidate [of z sid c joinDate i t]
        Suc [of "Suc i" "advance z (period c) (Some t)"]
      by simp
  qed
qed

subsection \<open>The alignment loop\<close>

text \<open>
  From a valid start the alignment loop returns the start advanced by some number of
  steps, and such that the next boundary is after the join date whenever the result
  itself is not.
\<close>

lemma cycle_alignment_Some:
  "cycleStart = Some s \<Longrightarrow>
   \<exists>t0 a. cycle_alignment z p joinDate cycleStart = Some t0
     \<and> (advance z p ^^ a) (Some s) = Some t0
     \<and> (date_le (Some t0) joinDate \<longrightarrow> date_gt (advance z p (Some t0)) joinDate)"
proof (induction z p joinDate cycleStart arbitrary: s rule: cycle_alignment.induct)
  case (1 z p joinDate cycleStart)
  obtain e where e: "advance z p (Some s) = Some e"
    using advance_Some [of z p s] by blast
  show ?case
  proof (cases "date_le cycleStart joinDate \<and> \<not> date_gt (advance z p cycleStart) joinDate")
    case True
    then have le: "date_le cycleStart joinDate"
      and ngt: "\<not> date_gt (advance z p cycleStart) joinDate" by simp_all
    have nx: "advance z p cycleStart = Some e" using e "1.prems" by simp
    from "1.IH" [OF le refl ngt nx]
    obtain t0 a where r: "cycle_alignment z p joinDate (advance z p cycleStart) = Some t0"
      and a: "(advance z p ^^ a) (Some e) = Some t0"
      and post: "date_le (Some t0) joinDate \<longrightarrow> date_gt (advance z p (Some t0)) joinDate"
      by blast
    have "cycle_alignment z p joinDate cycleStart = Some t0"
      using le ngt r by (subst cycle_alignment.simps) (simp add: Let_def)
    moreover have "(advance z p ^^ Suc a) (Some s) = Some t0"
      using a e by (simp add: funpow_swap1)
    ultimately show ?thesis using post by blast
  next
    case False
    then have "cycle_alignment z p joinDate cycleStart = Some s"
      using "1.prems" by (subst cycle_alignment.simps) (auto simp: Let_def)
    moreover have "(advance z p ^^ 0) (Some s) = Some s" by simp
    moreover have "date_le (Some s) joinDate \<longrightarrow> date_gt (advance z p (Some s)) joinDate"
      using False "1.prems" by auto
    ultimately show ?thesis by blast
  qed
qed

lemma cycle_alignment_cong:
  "advance z p = advance z q \<Longrightarrow> cycle_alignment z p joinDate cycleStart = cycle_alignment z q joinDate cycleStart"
proof (induction z p joinDate cycleStart rule: cycle_alignment.induct)
  case (1 z p joinDate cycleStart)
  show ?case
  proof (cases "date_le cycleStart joinDate \<and> \<not> date_gt (advance z p cycleStart) joinDate")
    case True
    then have "cycle_alignment z p joinDate (advance z p cycleStart)
        = cycle_alignment z q joinDate (advance z p cycleStart)"
      using "1.IH" [OF _ refl] "1.prems" by simp
    then show ?thesis
      using True "1.prems"
      by (subst cycle_alignment.simps, subst (2) cycle_alignment.simps) (simp add: Let_def)
  next
    case False
    then show ?thesis
      using "1.prems"
      by (subst cycle_alignment.simps, subst (2) cycle_alignment.simps) (auto simp: Let_def)
  qed
qed

lemma cycle_alignment_None: "cycle_alignment z p joinDate None = None"
  by (subst cycle_alignment.simps) simp

lemma cycle_alignment_before:
  "\<not> date_le (Some s) joinDate \<Longrightarrow> cycle_alignment z p joinDate (Some s) = Some s"
  by (subst cycle_alignment.simps) simp

subsection \<open>The generator in closed form\<close>

definition kept :: "string \<Rightarrow> Course \<Rightarrow> Payment list \<Rightarrow> Payment list \<Rightarrow> Payment list" where
  "kept sid c existing rs = filter (\<lambda>r. \<not> has_record sid (id_c c) existing (periodStart r)) rs"

lemma generate_valid:
  assumes "Date_new (startDate c) = Some s"
  shows "generatePaymentsForEnrollment u z sid c joinDateStr existing =
     Inr (fresh u 0 (kept sid c existing
        (candidates z sid c (Date_new joinDateStr) (periodsToGenerate (period c)) 0
           (cycle_alignment z (period c) (Date_new joinDateStr) (Some s)))))"
proof -
  obtain t0 where "cycle_alignment z (period c) (Date_new joinDateStr) (Some s) = Some t0"
    using cycle_alignment_Some [OF refl, of z "period c" "Date_new joinDateStr" s] by blast
  then show ?thesis
    by (simp add: generatePaymentsForEnrollment_def assms for_loop_Some kept_def)
qed

lemma generate_invalid:
  assumes "Date_new (startDate c) = None"
  shows "generatePaymentsForEnrollment u z sid c joinDateStr existing = Inl RangeError"
  using periodsToGenerate_pos [of "period c"]
  by (simp add: generatePaymentsForEnrollment_def assms cycle_alignment_None for_loop_None)

lemma generate_Inr:
  assumes "generatePaymentsForEnrollment u z sid c joinDateStr existing = Inr P"
  shows "\<exists>s. Date_new (startDate c) = Some s"
  using assms generate_invalid [of c u z sid joinDateStr existing]
  by (cases "Date_new (startDate c)") simp_all

lemma for_loop_cong:
  assumes "\<And>i s np. loop_body u z sid c joinDate existing i s np
      = loop_body u' z sid' c' joinDate' existing' i s np"
  shows "for_loop u z sid c joinDate existing n i s np
      = for_loop u' z sid' c' joinDate' existing' n i s np"
proof (induction "n - i" arbitrary: i s np)
  case 0
  then show ?case by (simp add: for_loop.simps)
next
  case (Suc k)
  then have k: "k = n - (i + 1)" by simp
  show ?case
    unfolding for_loop.simps [of u z sid c joinDate existing n i]
      for_loop.simps [of u' z sid' c' joinDate' existing' n i]
    using Suc.hyps(1) [OF k] assms
    by (simp split: sum.split)
qed

subsection \<open>What every candidate carries\<close>

definition key_of :: "Payment \<Rightarrow> string \<times> string \<times> string" where
  "key_of r = (studentId r, courseId r, periodStart r)"

lemma keys_fresh: "map key_of (fresh u k rs) = map key_of rs"
  by (rule map_fresh) (simp add: key_of_def)

lemma candidate_ids:
  "r \<in> set (candidate z sid c joinDate i t) \<Longrightarrow>
     studentId r = sid \<and> courseId r = id_c c \<and> (\<exists>x. periodStart r = ISODate x)"
  by (auto simp: candidate_def cycle_record_def split: option.splits if_splits)

lemma candidates_ids:
  "r \<in> set (candidates z sid c joinDate k i cps) \<Longrightarrow>
     studentId r = sid \<and> courseId r = id_c c \<and> (\<exists>x. periodStart r = ISODate x)"
proof (induction k arbitrary: i cps)
  case 0
  then show ?case by simp
next
  case (Suc k)
  then show ?case
    by (cases cps) (auto dest: candidate_ids)
qed

subsection \<open>The cycles of a run\<close>

text \<open>
  \<open>next_t z p t\<close> is the time value of \<open>advance z p\<close> on the valid date \<open>t\<close>.  Consecutive
  cycle boundaries lie on different days in every time zone.
\<close>

definition next_t :: "zone \<Rightarrow> string \<Rightarrow> int \<Rightarrow> int" where
  "next_t z p t = (case advance z p (Some t) of Some e \<Rightarrow> e | None \<Rightarrow> t)"

lemma advance_next: "advance z p (Some t) = Some (next_t z p t)"
  using advance_Some [of z p t] by (auto simp: next_t_def)

lemma next_t_later: "t + 5 * msPerDay \<le> next_t z p t"
  using advance_Some [of z p t] by (auto simp: next_t_def)

lemma next_t_day: "Day t < Day (next_t z p t)"
  using Day_mono [OF next_t_later [of t z p]] by (simp add: Day_add_days)

lemma next_t_less: "t < next_t z p t"
  using next_t_day by (rule Day_less_imp_less)

lemma advance_funpow: "(advance z p ^^ m) (Some t) = Some ((next_t z p ^^ m) t)"
  by (induction m) (simp_all add: advance_next)

lemma next_funpow_mono:
  assumes "m < m'"
  shows "Day ((next_t z p ^^ m) t) < Day ((next_t z p ^^ m') t)"
proof -
  have "Day ((next_t z p ^^ n) t) < Day ((next_t z p ^^ Suc n) t)" for n
    by (simp add: next_t_day)
  then show ?thesis using assms by (rule lift_Suc_mono_less)
qed

lemma candidate_later:
  assumes "\<not> date_lt (Some t) joinDate"
  shows "candidate z sid c joinDate i t = [cycle_record sid c t (next_t z (period c) t) (fee c)]"
proof -
  have "effectiveStart_of joinDate (Some t) = Some t"
    using assms by (simp add: effectiveStart_of_def)
  moreover have "cycle_amount (fee c) i joinDate (Some t) (Some e) = fee c" for e
    using assms by (cases joinDate) simp_all
  moreover have "\<not> next_t z (period c) t \<le> t"
    using next_t_less [of t z "period c"] by simp
  ultimately show ?thesis
    by (simp add: candidate_def advance_next)
qed

lemma not_before_next:
  assumes "\<not> date_lt (Some t) joinDate"
  shows "\<not> date_lt (Some (next_t z p t)) joinDate"
  using assms next_t_less [of t z p] by (cases joinDate) simp_all

lemma candidates_later:
  assumes "\<not> date_lt (Some t) joinDate"
  shows "candidates z sid c joinDate k i (Some t) =
     map (\<lambda>m. cycle_record sid c ((next_t z (period c) ^^ m) t)
                 ((next_t z (period c) ^^ Suc m) t) (fee c)) [0..<k]"
  using assms
proof (induction k arbitrary: i t)
  case 0
  then show ?case by simp
next
  case (Suc k)
  have "candidates z sid c joinDate k (Suc i) (Some (next_t z (period c) t)) =
     map (\<lambda>m. cycle_record sid c ((next_t z (period c) ^^ Suc m) t)
                 ((next_t z (period c) ^^ Suc (Suc m)) t) (fee c)) [0..<k]"
    using Suc.IH [OF not_before_next [OF Suc.prems], of "Suc i"]
    by (simp add: funpow_swap1)
  then show ?case
    using candidate_later [OF Suc.prems, of z sid c i]
    by (simp add: advance_next map_upt_Suc del: upt_Suc)
qed

text \<open>
  The shape of a whole run from a valid start date: the alignment loop ends on a cycle
  start \<open>t0\<close>, the first cycle yields a record from the effective start \<open>x0\<close> (the later
  of \<open>t0\<close> and the join date) to the next boundary, and every later cycle yields a record
  from one boundary to the next at the full fee.  No cycle is skipped.
\<close>

lemma run_shape:
  assumes "Date_new (startDate c) = Some s"
  obtains t0 a x0 where
      "cycle_alignment z (period c) (Date_new joinDateStr) (Some s) = Some t0"
    and "(advance z (period c) ^^ a) (Some s) = Some t0"
    and "effectiveStart_of (Date_new joinDateStr) (Some t0) = Some x0"
    and "x0 = t0 \<or> Date_new joinDateStr = Some x0"
    and "x0 < next_t z (period c) t0"
    and "\<not> date_lt (Some (next_t z (period c) t0)) (Date_new joinDateStr)"
    and "candidates z sid c (Date_new joinDateStr) (periodsToGenerate (period c)) 0 (Some t0) =
        cycle_record sid c x0 (next_t z (period c) t0)
          (cycle_amount (fee c) 0 (Date_new joinDateStr) (Some t0)
             (Some (next_t z (period c) t0)))
        # map (\<lambda>m. cycle_record sid c ((next_t z (period c) ^^ Suc m) t0)
                     ((next_t z (period c) ^^ Suc (Suc m)) t0) (fee c))
            [0..<periodsToGenerate (period c) - 1]"
proof -
  define p where "p = period c"
  define jd where "jd = Date_new joinDateStr"
  obtain n' where n': "periodsToGenerate p = Suc n'"
    using periodsToGenerate_pos [of p] by (cases "periodsToGenerate p") simp_all
  obtain t0 a where t0: "cycle_alignment z p jd (Some s) = Some t0"
    and a: "(advance z p ^^ a) (Some s) = Some t0"
    and post: "date_le (Some t0) jd \<longrightarrow> date_gt (advance z p (Some t0)) jd"
    using cycle_alignment_Some [OF refl, of z p jd s] by blast
  obtain x0 where x0: "effectiveStart_of jd (Some t0) = Some x0"
    using effectiveStart_of_Some [of jd t0] by blast
  have cases: "(x0 = t0 \<or> jd = Some x0) \<and> x0 < next_t z p t0
      \<and> \<not> date_lt (Some (next_t z p t0)) jd"
  proof (cases "date_lt (Some t0) jd")
    case True
    then obtain j where j: "jd = Some j" and lt: "t0 < j"
      by (cases jd) simp_all
    have "x0 = j" using x0 True j by (simp add: effectiveStart_of_def)
    moreover have jn: "j < next_t z p t0"
      using post j lt by (simp add: date_gt_def advance_next)
    ultimately show ?thesis
      using j by simp
  next
    case False
    then have "x0 = t0" using x0 by (simp add: effectiveStart_of_def)
    then show ?thesis
      using False next_t_less [of t0 z p] not_before_next [OF False, of z p] by simp
  qed
  then have nle: "\<not> next_t z p t0 \<le> x0"
    by simp
  have pc: "period c = p" by (simp add: p_def)
  have "candidate z sid c jd 0 t0 =
      [cycle_record sid c x0 (next_t z p t0)
         (cycle_amount (fee c) 0 jd (Some t0) (Some (next_t z p t0)))]"
    using x0 nle by (simp add: candidate_def advance_next p_def)
  moreover have "candidates z sid c jd n' (Suc 0) (Some (next_t z p t0)) =
      map (\<lambda>m. cycle_record sid c ((next_t z p ^^ Suc m) t0)
                  ((next_t z p ^^ Suc (Suc m)) t0) (fee c)) [0..<n']"
    using cases candidates_later [of "next_t z p t0" jd z sid c n' "Suc 0"]
    by (simp add: p_def funpow_swap1)
  ultimately have "candidates z sid c jd (periodsToGenerate p) 0 (Some t0) =
      cycle_record sid c x0 (next_t z p t0)
        (cycle_amount (fee c) 0 jd (Some t0) (Some (next_t z p t0)))
      # map (\<lambda>m. cycle_record sid c ((next_t z p ^^ Suc m) t0)
                   ((next_t z p ^^ Suc (Suc m)) t0) (fee c)) [0..<periodsToGenerate p - 1]"
    using pc by (simp add: n' advance_next)
  then show ?thesis
    using t0 a x0 cases that unfolding p_def jd_def by blast
qed

subsection \<open>From the candidates to the output\<close>

lemma map_kept:
  "map periodStart (kept sid c existing rs) =
     filter (\<lambda>d. \<not> has_record sid (id_c c) existing d) (map periodStart rs)"
  by (simp add: kept_def filter_map comp_def)

lemma generate_starts:
  assumes "Date_new (startDate c) = Some s"
    and "generatePaymentsForEnrollment u z sid c joinDateStr existing = Inr P"
  shows "map periodStart P =
     filter (\<lambda>d. \<not> has_record sid (id_c c) existing d)
       (map periodStart
          (candidates z sid c (Date_new joinDateStr) (periodsToGenerate (period c)) 0
             (cycle_alignment z (period c) (Date_new joinDateStr) (Some s))))"
proof -
  have "map periodStart (fresh u 0 rs) = map periodStart rs" for rs
    by (rule map_fresh) simp
  then show ?thesis
    using assms(2) unfolding generate_valid [OF assms(1)] by (auto simp: map_kept)
qed

lemma generate_subset:
  assumes "Date_new (startDate c) = Some s"
    and "generatePaymentsForEnrollment u z sid c joinDateStr existing = Inr P"
    and "r \<in> set P"
  shows "\<exists>r' \<in> set (candidates z sid c (Date_new joinDateStr) (periodsToGenerate (period c)) 0
             (cycle_alignment z (period c) (Date_new joinDateStr) (Some s))).
           r = r'\<lparr>id_p := id_p r\<rparr>"
proof -
  have "\<exists>r' \<in> set rs. r = r'\<lparr>id_p := id_p r\<rparr>" if "r \<in> set (fresh u k rs)" for k rs
    using that by (induction rs arbitrary: k) auto
  then show ?thesis
    using assms(2,3) unfolding generate_valid [OF assms(1)] kept_def by fastforce
qed

lemma tl_filter_subset: "set (tl (filter f (x # xs))) \<subseteq> set xs"
proof -
  have "set (tl ys) \<subseteq> set ys" for ys :: "'a list"
    by (cases ys) auto
  then have "set (tl (filter f xs)) \<subseteq> set xs"
    using filter_is_subset [of f xs] by blast
  then show ?thesis by (cases "f x") auto
qed

lemma not_before_funpow:
  assumes "\<not> date_lt (Some t) joinDate"
  shows "\<not> date_lt (Some ((next_t z p ^^ m) t)) joinDate"
  by (induction m) (simp_all add: assms not_before_next)

lemma for_loop_split:
  assumes "i \<le> k" "k \<le> n"
  shows "for_loop u z sid c joinDate existing n i s np =
     (case for_loop u z sid c joinDate existing k i s np of
        Inl e \<Rightarrow> Inl e
      | Inr (s', np') \<Rightarrow> for_loop u z sid c joinDate existing n k s' np')"
  using assms
proof (induction "k - i" arbitrary: i s np)
  case 0
  then have "k = i" by simp
  then show ?case by (simp add: for_loop.simps [of u z sid c joinDate existing i i])
next
  case (Suc d)
  then have d: "d = k - (i + 1)" and le: "i + 1 \<le> k" and lt: "i < k" "i < n" by simp_all
  show ?case
    unfolding for_loop.simps [of u z sid c joinDate existing n i]
      for_loop.simps [of u z sid c joinDate existing k i]
    using lt Suc.hyps(1) [OF d le Suc.prems(2)]
    by (simp split: sum.split)
qed

section \<open>The generator in every time zone, and in UTC\<close>

text \<open>
  In every time zone the records of the output start on the course's start date advanced
  by some number of the program's own steps, the first one possibly on the join date
  instead.  The steps are those of the local calendar, printed in UTC.
\<close>

lemma period_starts_on_steps:
  assumes "generatePaymentsForEnrollment u z sid c joinDateStr existing = Inr P"
  shows "(\<forall>r \<in> set (tl P). \<exists>k. Inr (periodStart r)
            = toISODate ((advance z (period c) ^^ k) (Date_new (startDate c))))
    \<and> (P \<noteq> [] \<longrightarrow>
          (\<exists>k. Inr (periodStart (hd P))
            = toISODate ((advance z (period c) ^^ k) (Date_new (startDate c))))
          \<or> Inr (periodStart (hd P)) = toISODate (Date_new joinDateStr))"
proof -
  define p where "p = period c"
  have pc: "period c = p" by (simp add: p_def)
  obtain s where s: "Date_new (startDate c) = Some s"
    using generate_Inr [OF assms] by blast
  define aligned where "aligned d \<longleftrightarrow> (\<exists>k. Inr d = toISODate ((advance z p ^^ k) (Some s)))" for d
  obtain t0 a x0 where t0: "cycle_alignment z (period c) (Date_new joinDateStr) (Some s) = Some t0"
    and a: "(advance z (period c) ^^ a) (Some s) = Some t0"
    and "effectiveStart_of (Date_new joinDateStr) (Some t0) = Some x0"
    and x0: "x0 = t0 \<or> Date_new joinDateStr = Some x0"
    and "x0 < next_t z (period c) t0"
    and "\<not> date_lt (Some (next_t z (period c) t0)) (Date_new joinDateStr)"
    and C: "candidates z sid c (Date_new joinDateStr) (periodsToGenerate (period c)) 0 (Some t0) =
        cycle_record sid c x0 (next_t z (period c) t0)
          (cycle_amount (fee c) 0 (Date_new joinDateStr) (Some t0)
             (Some (next_t z (period c) t0)))
        # map (\<lambda>m. cycle_record sid c ((next_t z (period c) ^^ Suc m) t0)
                     ((next_t z (period c) ^^ Suc (Suc m)) t0) (fee c))
            [0..<periodsToGenerate (period c) - 1]"
    by (rule run_shape [OF s, of z joinDateStr sid])
  define f where "f = (\<lambda>m. ISODate ((next_t z p ^^ Suc m) t0))"
  define g where "g = (\<lambda>d. \<not> has_record sid (id_c c) existing d)"
  have starts: "map periodStart P = filter g (ISODate x0 # map f [0..<periodsToGenerate p - 1])"
    using generate_starts [OF s assms] C t0
    by (simp add: pc cycle_record_def f_def g_def comp_def)
  have from_start: "(advance z p ^^ (m + a)) (Some s) = Some ((next_t z p ^^ m) t0)" for m
    using a by (simp add: funpow_add pc advance_funpow)
  have tail: "aligned d" if "d \<in> set (map f [0..<periodsToGenerate p - 1])" for d
  proof -
    from that obtain m where "d = ISODate ((next_t z p ^^ Suc m) t0)"
      by (auto simp: f_def)
    then have "Inr d = toISODate ((advance z p ^^ (Suc m + a)) (Some s))"
      unfolding from_start by (simp add: toISODate_Some)
    then show ?thesis unfolding aligned_def by blast
  qed
  have head: "aligned (ISODate x0) \<or> Inr (ISODate x0) = toISODate (Date_new joinDateStr)"
  proof (cases "x0 = t0")
    case True
    have "Inr (ISODate t0) = toISODate ((advance z p ^^ (0 + a)) (Some s))"
      unfolding from_start by (simp add: toISODate_Some)
    then show ?thesis using True unfolding aligned_def by blast
  next
    case False
    then show ?thesis using x0 by (simp add: toISODate_Some)
  qed
  have one: "aligned (periodStart r)" if "r \<in> set (tl P)" for r
  proof -
    have "periodStart r \<in> set (tl (map periodStart P))"
      using that by (simp add: map_tl [symmetric])
    then have "periodStart r \<in> set (map f [0..<periodsToGenerate p - 1])"
      unfolding starts using tl_filter_subset by fastforce
    then show ?thesis by (rule tail)
  qed
  have two: "aligned (periodStart (hd P)) \<or> Inr (periodStart (hd P)) = toISODate (Date_new joinDateStr)"
    if "P \<noteq> []"
  proof -
    have "periodStart (hd P) = hd (map periodStart P)"
      using that by (simp add: hd_map)
    moreover have "hd (map periodStart P) \<in> set (map periodStart P)"
      using that by (intro hd_in_set) simp
    ultimately have "periodStart (hd P) \<in> set (ISODate x0 # map f [0..<periodsToGenerate p - 1])"
      unfolding starts by auto
    then show ?thesis using head tail by auto
  qed
  show ?thesis
    using one two unfolding aligned_def pc s by blast
qed


text \<open>
  In every time zone, and for every valid start date and join date, every pass of the
  generation loop is entered with an effective start strictly before the end of its
  cycle, so that the test \<open>effectiveStart >= periodEnd\<close> fails in every pass.  The state
  with which pass \<open>k\<close> is entered is the state in which the loop bounded by \<open>k\<close> ends
  (\<open>for_loop_split\<close>).
\<close>

lemma skip_branch_never_taken:
  assumes "Date_new (startDate c) = Some s" and "Date_new joinDateStr = Some j"
  shows "\<forall>k < periodsToGenerate (period c).
            \<exists>cps np. for_loop u z sid c (Date_new joinDateStr) existing k 0
                  (cycle_alignment z (period c) (Date_new joinDateStr) (Date_new (startDate c))) []
                = Inr (cps, np)
              \<and> date_lt (effectiveStart_of (Date_new joinDateStr) cps) (advance z (period c) cps)
              \<and> \<not> date_ge (effectiveStart_of (Date_new joinDateStr) cps)
                    (advance z (period c) cps)"
proof -
  define p where "p = period c"
  have pc: "period c = p" by (simp add: p_def)
  define jd where "jd = Date_new joinDateStr"
  have jc: "Date_new joinDateStr = jd" by (simp add: jd_def)
  obtain t0 a x0 where t0: "cycle_alignment z (period c) (Date_new joinDateStr) (Some s) = Some t0"
    and "(advance z (period c) ^^ a) (Some s) = Some t0"
    and e0: "effectiveStart_of (Date_new joinDateStr) (Some t0) = Some x0"
    and "x0 = t0 \<or> Date_new joinDateStr = Some x0"
    and x0: "x0 < next_t z (period c) t0"
    and nb: "\<not> date_lt (Some (next_t z (period c) t0)) (Date_new joinDateStr)"
    and C: "candidates z sid c (Date_new joinDateStr) (periodsToGenerate (period c)) 0 (Some t0) =
        cycle_record sid c x0 (next_t z (period c) t0)
          (cycle_amount (fee c) 0 (Date_new joinDateStr) (Some t0)
             (Some (next_t z (period c) t0)))
        # map (\<lambda>m. cycle_record sid c ((next_t z (period c) ^^ Suc m) t0)
                     ((next_t z (period c) ^^ Suc (Suc m)) t0) (fee c))
            [0..<periodsToGenerate (period c) - 1]"
    by (rule run_shape [OF assms(1), of z joinDateStr sid])
  have pass: "\<exists>cps np. for_loop u z sid c jd existing k 0 (Some t0) [] = Inr (cps, np)
      \<and> date_lt (effectiveStart_of jd cps) (advance z p cps)
      \<and> \<not> date_ge (effectiveStart_of jd cps) (advance z p cps)" for k
  proof -
    define xk where "xk = (next_t z p ^^ k) t0"
    have run: "for_loop u z sid c jd existing k 0 (Some t0) [] =
        Inr (Some xk, fresh u 0 (kept sid c existing (candidates z sid c jd k 0 (Some t0))))"
      by (simp add: for_loop_Some kept_def pc advance_funpow xk_def)
    have "\<exists>e. effectiveStart_of jd (Some xk) = Some e \<and> e < next_t z p xk"
    proof (cases k)
      case 0
      then show ?thesis
        using e0 x0 by (simp add: xk_def pc jc)
    next
      case (Suc m)
      then have "xk = (next_t z p ^^ m) (next_t z p t0)"
        by (simp add: xk_def funpow_swap1)
      then have "\<not> date_lt (Some xk) jd"
        using not_before_funpow [of "next_t z p t0" jd m z p] nb by (simp add: pc jc)
      then show ?thesis
        using next_t_less [of xk z p] by (simp add: effectiveStart_of_def)
    qed
    then show ?thesis
      using run by (auto simp: advance_next date_ge_def)
  qed
  have t0': "cycle_alignment z p jd (Some s) = Some t0"
    using t0 by (simp add: pc jc)
  have "\<forall>k < periodsToGenerate p.
      \<exists>cps np. for_loop u z sid c jd existing k 0 (cycle_alignment z p jd (Some s)) [] = Inr (cps, np)
        \<and> date_lt (effectiveStart_of jd cps) (advance z p cps)
        \<and> \<not> date_ge (effectiveStart_of jd cps) (advance z p cps)"
    unfolding t0' using pass by blast
  then show ?thesis
    unfolding pc jc assms(1) .
qed

text \<open>
  In every time zone a record of the output ends on the day it starts on or on a later
  day, and a record that does not start on the join date ends on a later day.
\<close>

lemma period_not_reversed:
  assumes "generatePaymentsForEnrollment u z sid c joinDateStr existing = Inr P"
    and "r \<in> set P"
  shows "\<exists>a b. Inr (periodStart r) = toISODate (Some a)
      \<and> Inr (periodEnd r) = toISODate (Some b) \<and> Day a \<le> Day b
      \<and> (Day a < Day b \<or> Inr (periodStart r) = toISODate (Date_new joinDateStr))"
proof -
  obtain s where s: "Date_new (startDate c) = Some s"
    using generate_Inr [OF assms(1)] by blast
  obtain t0 a x0 where t0: "cycle_alignment z (period c) (Date_new joinDateStr) (Some s) = Some t0"
    and "(advance z (period c) ^^ a) (Some s) = Some t0"
    and "effectiveStart_of (Date_new joinDateStr) (Some t0) = Some x0"
    and xj: "x0 = t0 \<or> Date_new joinDateStr = Some x0"
    and x0: "x0 < next_t z (period c) t0"
    and "\<not> date_lt (Some (next_t z (period c) t0)) (Date_new joinDateStr)"
    and C: "candidates z sid c (Date_new joinDateStr) (periodsToGenerate (period c)) 0 (Some t0) =
        cycle_record sid c x0 (next_t z (period c) t0)
          (cycle_amount (fee c) 0 (Date_new joinDateStr) (Some t0)
             (Some (next_t z (period c) t0)))
        # map (\<lambda>m. cycle_record sid c ((next_t z (period c) ^^ Suc m) t0)
                     ((next_t z (period c) ^^ Suc (Suc m)) t0) (fee c))
            [0..<periodsToGenerate (period c) - 1]"
    by (rule run_shape [OF s, of z joinDateStr sid])
  obtain r' where r': "r' \<in> set (candidates z sid c (Date_new joinDateStr)
      (periodsToGenerate (period c)) 0 (Some t0))" and rr: "r = r'\<lparr>id_p := id_p r\<rparr>"
    using generate_subset [OF s assms] t0 by auto
  from r' [unfolded C] consider
      (head) h where "r' = cycle_record sid c x0 (next_t z (period c) t0) h"
    | (tail) m where "r' = cycle_record sid c ((next_t z (period c) ^^ Suc m) t0)
        ((next_t z (period c) ^^ Suc (Suc m)) t0) (fee c)"
    by auto
  then have "\<exists>a b. periodStart r' = ISODate a \<and> periodEnd r' = ISODate b \<and> Day a \<le> Day b
      \<and> (Day a < Day b \<or> Inr (periodStart r') = toISODate (Date_new joinDateStr))"
  proof cases
    case head
    then have ps: "periodStart r' = ISODate x0"
      and pe: "periodEnd r' = ISODate (next_t z (period c) t0)"
      by (simp_all add: cycle_record_def)
    have le: "Day x0 \<le> Day (next_t z (period c) t0)"
      using x0 by (intro Day_mono) simp
    have "Day x0 < Day (next_t z (period c) t0)
        \<or> Inr (ISODate x0) = toISODate (Date_new joinDateStr)"
      using xj next_t_day [of t0 z "period c"] by (auto simp: toISODate_Some)
    then show ?thesis
      using ps pe le by (intro exI [of _ x0] exI [of _ "next_t z (period c) t0"]) simp
  next
    case tail
    then have "periodStart r' = ISODate ((next_t z (period c) ^^ Suc m) t0)"
      "periodEnd r' = ISODate ((next_t z (period c) ^^ Suc (Suc m)) t0)"
      by (simp_all add: cycle_record_def)
    moreover have "Day ((next_t z (period c) ^^ Suc m) t0)
        < Day ((next_t z (period c) ^^ Suc (Suc m)) t0)"
      by (rule next_funpow_mono) simp
    ultimately show ?thesis
      by (intro exI [of _ "(next_t z (period c) ^^ Suc m) t0"]
          exI [of _ "(next_t z (period c) ^^ Suc (Suc m)) t0"]) simp
  qed
  moreover have "periodStart r = periodStart r'" "periodEnd r = periodEnd r'"
    by (subst rr, simp)+
  ultimately show ?thesis by (simp add: toISODate_Some)
qed

lemma sorted_wrt_tl: "sorted_wrt R xs \<Longrightarrow> sorted_wrt R (tl xs)"
  by (cases xs) simp_all

text \<open>
  With UTC as the local time zone the steps are those of the calendar that the dates are
  printed in, and a monthly course with fee 1000 that started on 2024-01-01, joined on
  2024-01-16 with no existing payments, yields a first record from 2024-01-16 to 2024-02-01
  with the amount 516 and a second one from 2024-02-01 to 2024-03-01 with the amount 1000.
\<close>

lemma proration_scenario_UTC:
  "\<exists>r1 r2 rest.
     generatePaymentsForEnrollment u zone_UTC sid
       (c\<lparr>startDate := YMD 2024 1 1, fee := 1000, period := ''monthly''\<rparr>) (YMD 2024 1 16) []
       = Inr (r1 # r2 # rest)
     \<and> periodStart r1 = ''2024-01-16'' \<and> periodEnd r1 = ''2024-02-01'' \<and> amount r1 = 516
     \<and> periodStart r2 = ''2024-02-01'' \<and> periodEnd r2 = ''2024-03-01'' \<and> amount r2 = 1000"
proof -
  define course where "course = c\<lparr>startDate := YMD 2024 1 1, fee := 1000, period := ''monthly''\<rparr>"
  have fields: "startDate course = YMD 2024 1 1" "fee course = 1000" "period course = ''monthly''"
    by (simp_all add: course_def)
  have ds: "Date_new (YMD 2024 1 1) = Some 1704067200000"
    and dj: "Date_new (YMD 2024 1 16) = Some 1705363200000"
    by code_simp+
  have al: "cycle_alignment zone_UTC ''monthly'' (Some 1705363200000) (Some 1704067200000)
      = Some 1704067200000"
    by code_simp
  have a1: "advance zone_UTC ''monthly'' (Some 1704067200000) = Some 1706745600000"
    and a2: "advance zone_UTC ''monthly'' (Some 1706745600000) = Some 1709251200000"
    by code_simp+
  have i0: "ISODate 1705363200000 = ''2024-01-16''"
    and i1: "ISODate 1706745600000 = ''2024-02-01''"
    and i2: "ISODate 1709251200000 = ''2024-03-01''"
    by code_simp+
  have am: "Math_round (fl (1000 * fl (16 / 31))) = 516"
    by code_simp
  have n: "periodsToGenerate ''monthly'' = Suc (Suc 10)"
    by (simp add: periodsToGenerate_def)
  have c1: "candidate zone_UTC sid course (Some 1705363200000) 0 1704067200000
      = [cycle_record sid course 1705363200000 1706745600000 516]"
    by (simp add: candidate_def effectiveStart_of_def fields a1 am)
  have c2: "candidate zone_UTC sid course (Some 1705363200000) (Suc 0) 1706745600000
      = [cycle_record sid course 1706745600000 1709251200000 1000]"
    by (simp add: candidate_def effectiveStart_of_def fields a2)
  have cs: "candidates zone_UTC sid course (Some 1705363200000) (Suc (Suc 10)) 0 (Some 1704067200000)
      = cycle_record sid course 1705363200000 1706745600000 516
        # cycle_record sid course 1706745600000 1709251200000 1000
        # candidates zone_UTC sid course (Some 1705363200000) 10 (Suc (Suc 0)) (Some 1709251200000)"
    by (simp only: candidates.simps option.case fields a1 a2 c1 c2 append.simps)
  have kp: "kept sid course [] rs = rs" for rs
    by (simp add: kept_def has_record_def)
  have s: "Date_new (startDate course) = Some 1704067200000"
    by (simp only: fields ds)
  have "generatePaymentsForEnrollment u zone_UTC sid course (YMD 2024 1 16) [] =
      Inr (fresh u 0
        (cycle_record sid course 1705363200000 1706745600000 516
         # cycle_record sid course 1706745600000 1709251200000 1000
         # candidates zone_UTC sid course (Some 1705363200000) 10 (Suc (Suc 0)) (Some 1709251200000)))"
    by (simp only: generate_valid [OF s] fields dj al n cs kp)
  then have "generatePaymentsForEnrollment u zone_UTC sid course (YMD 2024 1 16) [] =
      Inr ((cycle_record sid course 1705363200000 1706745600000 516)\<lparr>id_p := u 0\<rparr>
        # (cycle_record sid course 1706745600000 1709251200000 1000)\<lparr>id_p := u (Suc 0)\<rparr>
        # fresh u (Suc (Suc 0))
            (candidates zone_UTC sid course (Some 1705363200000) 10 (Suc (Suc 0)) (Some 1709251200000)))"
    by (simp only: fresh.simps)
  then show ?thesis
    unfolding course_def [symmetric]
    by (intro exI conjI, assumption) (simp_all add: cycle_record_def i0 i1 i2)
qed


section \<open>Fixtures for the concrete instances\<close>

definition example_uuid :: "nat \<Rightarrow> string" where
  "example_uuid k = ''uuid-'' @ pad 2 (int k)"

definition example_course :: Course where
  "example_course =
     \<lparr>id_c = ''c1'', name = ''Piano'', startDate = YMD 2024 1 1, fee = 1000,
      period = ''monthly'', scheduleDays = [''Monday''], scheduleTime = ''14:00'',
      notes_c = []\<rparr>"

text \<open>
  What a yearly course that started on 2024-01-01 yields for a student who joined on
  2024-01-16 and has no payments yet.
\<close>

definition example_output :: "Payment list" where
  "example_output =
     [\<lparr>id_p = ''uuid-00'', studentId = ''s1'', courseId = ''c1'',
       periodStart = ''2024-01-16'', periodEnd = ''2025-01-01'', amount = 959,
       status = pending, dueDate = ''2025-01-01'', paidDate = None\<rparr>,
      \<lparr>id_p = ''uuid-01'', studentId = ''s1'', courseId = ''c1'',
       periodStart = ''2025-01-01'', periodEnd = ''2026-01-01'', amount = 1000,
       status = pending, dueDate = ''2026-01-01'', paidDate = None\<rparr>,
      \<lparr>id_p = ''uuid-02'', studentId = ''s1'', courseId = ''c1'',
       periodStart = ''2026-01-01'', periodEnd = ''2027-01-01'', amount = 1000,
       status = pending, dueDate = ''2027-01-01'', paidDate = None\<rparr>,
      \<lparr>id_p = ''uuid-03'', studentId = ''s1'', courseId = ''c1'',
       periodStart = ''2027-01-01'', periodEnd = ''2028-01-01'', amount = 1000,
       status = pending, dueDate = ''2028-01-01'', paidDate = None\<rparr>,
      \<lparr>id_p = ''uuid-04'', studentId = ''s1'', courseId = ''c1'',
       periodStart = ''2028-01-01'', periodEnd = ''2029-01-01'', amount = 1000,
       status = pending, dueDate = ''2029-01-01'', paidDate = None\<rparr>]"

text \<open>
  An existing payment for February 2024 as the server returns it, paid, and a pending
  record of the same student, course and period with other values in every other field.
\<close>

definition example_existing :: "Payment list" where
  "example_existing =
     [\<lparr>id_p = ''p-7'', studentId = ''s1'', courseId = ''c1'',
       periodStart = ''2024-02-01T00:00:00.000Z'', periodEnd = ''2024-03-01T00:00:00.000Z'',
       amount = 1000, status = paid, dueDate = ''2024-03-01T00:00:00.000Z'',
       paidDate = Some ''2024-02-20T09:30:00.000Z''\<rparr>]"

definition example_existing_pending :: "Payment list" where
  "example_existing_pending =
     [\<lparr>id_p = ''p-8'', studentId = ''s1'', courseId = ''c1'',
       periodStart = ''2024-02-01'', periodEnd = ''2024-02-15'',
       amount = 1, status = pending, dueDate = ''2024-02-10'',
       paidDate = None\<rparr>]"

section \<open>The claims\<close>

text \<open>
  C1 (idempotence).  If a first call returns the records \<open>P\<close>, a second call for the same
  student, course and join date, with the existing payments of the first call followed
  by \<open>P\<close>, returns the empty sequence (whatever identifiers the supply holds, and in every time
  zone).
\<close>

theorem generate_idempotent:
  assumes "generatePaymentsForEnrollment u z sid c joinDateStr existing = Inr P"
  shows "generatePaymentsForEnrollment u' z sid c joinDateStr (existing @ P) = Inr []"
proof -
  obtain s where s: "Date_new (startDate c) = Some s"
    using generate_Inr [OF assms] by blast
  define C where "C = candidates z sid c (Date_new joinDateStr) (periodsToGenerate (period c)) 0
      (cycle_alignment z (period c) (Date_new joinDateStr) (Some s))"
  have P: "P = fresh u 0 (kept sid c existing C)"
    using assms unfolding generate_valid [OF s] C_def by simp
  have "has_record sid (id_c c) (existing @ P) (periodStart r)" if r: "r \<in> set C" for r
  proof (cases "has_record sid (id_c c) existing (periodStart r)")
    case True
    then show ?thesis by (simp add: has_record_append)
  next
    case False
    then have "r \<in> set (kept sid c existing C)"
      using r by (simp add: kept_def)
    then have "key_of r \<in> key_of ` set P"
      unfolding P using keys_fresh [of u 0 "kept sid c existing C"]
      by (metis image_eqI set_map)
    then obtain q where "q \<in> set P" and "key_of q = key_of r" by auto
    moreover have "studentId r = sid" "courseId r = id_c c"
      using r unfolding C_def by (auto dest: candidates_ids)
    ultimately have "has_record sid (id_c c) P (periodStart r)"
      by (auto simp: has_record_def list_ex_iff key_of_def)
    then show ?thesis by (simp add: has_record_append)
  qed
  then have "kept sid c (existing @ P) C = []"
    by (simp add: kept_def)
  then show ?thesis
    unfolding generate_valid [OF s] C_def [symmetric] by simp
qed

theorem generate_idempotent_witness:
  "generatePaymentsForEnrollment example_uuid zone_UTC ''s1'' (example_course\<lparr>period := ''yearly''\<rparr>)
      (YMD 2024 1 16) [] = Inr example_output
   \<and> generatePaymentsForEnrollment example_uuid zone_UTC ''s1'' (example_course\<lparr>period := ''yearly''\<rparr>)
      (YMD 2024 1 16) ([] @ example_output) = Inr []"
proof -
  have h: "generatePaymentsForEnrollment example_uuid zone_UTC ''s1''
      (example_course\<lparr>period := ''yearly''\<rparr>) (YMD 2024 1 16) [] = Inr example_output"
    by code_simp
  show ?thesis
    using h generate_idempotent [OF h] by blast
qed

text \<open>
  C2 (pro-ration and full-period charging).  The claim fixes no time zone.  With UTC as
  the local time zone the scenario yields the two records of the claim
  (\<open>proration_scenario_UTC\<close>).  In a zone five hours behind UTC the same call yields a
  second record from 2024-02-01 to 2024-03-03: the start date, midnight UTC of 2024-01-01,
  is 19:00 of 2023-12-31 there; \<open>setMonth\<close> moves that local time to 19:00 of 2024-01-31,
  which is midnight UTC of 2024-02-01, and then to 19:00 of the 31st of February, the 2nd
  of March, which is midnight UTC of 2024-03-03.
\<close>

theorem proration_five_hours_behind_UTC:
  "map_sum id (\<lambda>P. map (\<lambda>r. (periodStart r, periodEnd r, amount r)) (take 2 P))
     (generatePaymentsForEnrollment example_uuid zone_UTC_minus_5 ''s1'' example_course
        (YMD 2024 1 16) [])
   = Inr [(''2024-01-16'', ''2024-02-01'', 516), (''2024-02-01'', ''2024-03-03'', 1000)]"
  by code_simp

text \<open>
  C3 (alignment invariant).  The claim fixes no time zone.  In the zone five hours behind
  UTC the monthly course that started on 2024-01-01 yields, for the join date 2024-01-16,
  records that start on the 3rd of the month from March on, while the start date advanced
  by whole calendar months (the steps of the calendar in which the dates are written and
  printed, which are the program's steps in UTC) falls on the 1st of every month: the
  third record starts on 2024-03-03, between the start date advanced by two months and
  by three.
\<close>

theorem alignment_five_hours_behind_UTC:
  "map_sum id (map periodStart)
     (generatePaymentsForEnrollment example_uuid zone_UTC_minus_5 ''s1'' example_course
        (YMD 2024 1 16) [])
     = Inr [''2024-01-16'', ''2024-02-01'', ''2024-03-03'', ''2024-04-03'', ''2024-05-03'',
            ''2024-06-03'', ''2024-07-03'', ''2024-08-03'', ''2024-09-03'', ''2024-10-03'',
            ''2024-11-03'', ''2024-12-03'']
   \<and> map (\<lambda>k. toISODate ((advance zone_UTC (period example_course) ^^ k)
                 (Date_new (startDate example_course)))) [0..<13]
     = [Inr ''2024-01-01'', Inr ''2024-02-01'', Inr ''2024-03-01'', Inr ''2024-04-01'',
        Inr ''2024-05-01'', Inr ''2024-06-01'', Inr ''2024-07-01'', Inr ''2024-08-01'',
        Inr ''2024-09-01'', Inr ''2024-10-01'', Inr ''2024-11-01'', Inr ''2024-12-01'',
        Inr ''2025-01-01'']"
  by code_simp

text \<open>
  C4 (duplicate suppression).  The candidate records of the cycles are what the call
  returns when there are no existing payments.  With existing payments the call returns
  those candidates, in the same order, without exactly the ones for which some existing
  record has the same \<open>studentId\<close>, the same \<open>courseId\<close> and a \<open>periodStart\<close> that begins
  with the candidate's \<open>periodStart\<close>, the calendar date of the cycle's effective start
  (for a \<open>periodStart\<close> printed by \<open>toISOString\<close>, with or without its time of day,
  this is the equality of the two days: \<open>prefix_ISODate_iff\<close>).  The two outputs are
  compared without their identifiers, which are fresh in each call.
\<close>

theorem duplicate_suppression:
  "map_sum id (map (\<lambda>r. r\<lparr>id_p := []\<rparr>))
     (generatePaymentsForEnrollment u z sid c joinDateStr existing)
   = map_sum id
       (\<lambda>C. filter (\<lambda>r. \<not> (\<exists>q \<in> set existing. studentId q = sid \<and> courseId q = id_c c
                            \<and> prefix (periodStart r) (periodStart q)))
              (map (\<lambda>r. r\<lparr>id_p := []\<rparr>) C))
       (generatePaymentsForEnrollment u' z sid c joinDateStr [])"
proof (cases "Date_new (startDate c)")
  case None
  then show ?thesis by (simp add: generate_invalid)
next
  case (Some s)
  have strip: "map (\<lambda>r. r\<lparr>id_p := []\<rparr>) (fresh v k rs) = map (\<lambda>r. r\<lparr>id_p := []\<rparr>) rs" for v k rs
    by (rule map_fresh) simp
  have none: "kept sid c [] rs = rs" for rs
    by (simp add: kept_def has_record_def)
  have "map (\<lambda>r. r\<lparr>id_p := []\<rparr>) (kept sid c existing rs)
      = filter (\<lambda>r. \<not> (\<exists>q \<in> set existing. studentId q = sid \<and> courseId q = id_c c
                            \<and> prefix (periodStart r) (periodStart q)))
          (map (\<lambda>r. r\<lparr>id_p := []\<rparr>) rs)" for rs
    by (simp add: kept_def has_record_def list_ex_iff filter_map comp_def)
  then show ?thesis
    by (simp add: generate_valid [OF Some] strip none)
qed

theorem duplicate_suppression_witness:
  "map_sum id (map periodStart)
     (generatePaymentsForEnrollment example_uuid zone_UTC ''s1'' example_course (YMD 2024 1 16)
        example_existing)
     = Inr [''2024-01-16'', ''2024-03-01'', ''2024-04-01'', ''2024-05-01'', ''2024-06-01'',
            ''2024-07-01'', ''2024-08-01'', ''2024-09-01'', ''2024-10-01'', ''2024-11-01'',
            ''2024-12-01'']
   \<and> map_sum id (map periodStart)
     (generatePaymentsForEnrollment example_uuid zone_UTC ''s1'' example_course (YMD 2024 1 16) [])
     = Inr [''2024-01-16'', ''2024-02-01'', ''2024-03-01'', ''2024-04-01'', ''2024-05-01'',
            ''2024-06-01'', ''2024-07-01'', ''2024-08-01'', ''2024-09-01'', ''2024-10-01'',
            ''2024-11-01'', ''2024-12-01'']
   \<and> map_sum id (map (\<lambda>r. r\<lparr>id_p := []\<rparr>))
     (generatePaymentsForEnrollment example_uuid zone_UTC ''s1'' example_course (YMD 2024 1 16)
        example_existing)
   = map_sum id
       (\<lambda>C. filter (\<lambda>r. \<not> (\<exists>q \<in> set example_existing. studentId q = ''s1''
                            \<and> courseId q = id_c example_course
                            \<and> prefix (periodStart r) (periodStart q)))
              (map (\<lambda>r. r\<lparr>id_p := []\<rparr>) C))
       (generatePaymentsForEnrollment example_uuid zone_UTC ''s1'' example_course (YMD 2024 1 16) [])"
proof -
  have a: "map_sum id (map periodStart)
     (generatePaymentsForEnrollment example_uuid zone_UTC ''s1'' example_course (YMD 2024 1 16)
        example_existing)
     = Inr [''2024-01-16'', ''2024-03-01'', ''2024-04-01'', ''2024-05-01'', ''2024-06-01'',
            ''2024-07-01'', ''2024-08-01'', ''2024-09-01'', ''2024-10-01'', ''2024-11-01'',
            ''2024-12-01'']"
    by code_simp
  have b: "map_sum id (map periodStart)
     (generatePaymentsForEnrollment example_uuid zone_UTC ''s1'' example_course (YMD 2024 1 16) [])
     = Inr [''2024-01-16'', ''2024-02-01'', ''2024-03-01'', ''2024-04-01'', ''2024-05-01'',
            ''2024-06-01'', ''2024-07-01'', ''2024-08-01'', ''2024-09-01'', ''2024-10-01'',
            ''2024-11-01'', ''2024-12-01'']"
    by code_simp
  show ?thesis
    by (intro conjI a b)
       (rule duplicate_suppression [of example_uuid zone_UTC "''s1''" example_course "YMD 2024 1 16"
          example_existing example_uuid])
qed

text \<open>
  C5 (horizon bound).  A single call returns at most 52 payment records for a weekly
  course, at most 12 for a monthly course and at most 5 for a yearly course.
\<close>

theorem horizon_bound:
  assumes "generatePaymentsForEnrollment u z sid c joinDateStr existing = Inr P"
  shows "(period c = ''weekly'' \<longrightarrow> length P \<le> 52)
    \<and> (period c = ''monthly'' \<longrightarrow> length P \<le> 12)
    \<and> (period c = ''yearly'' \<longrightarrow> length P \<le> 5)"
proof -
  obtain s where s: "Date_new (startDate c) = Some s"
    using generate_Inr [OF assms] by blast
  define C where "C = candidates z sid c (Date_new joinDateStr) (periodsToGenerate (period c)) 0
      (cycle_alignment z (period c) (Date_new joinDateStr) (Some s))"
  have "P = fresh u 0 (kept sid c existing C)"
    using assms unfolding generate_valid [OF s] C_def by simp
  then have "length P \<le> length C"
    by (simp add: kept_def)
  also have "length C \<le> periodsToGenerate (period c)"
    unfolding C_def by (rule length_candidates)
  finally have "length P \<le> periodsToGenerate (period c)" .
  then show ?thesis by (auto simp: periodsToGenerate_def)
qed

theorem horizon_bound_witness:
  "generatePaymentsForEnrollment example_uuid zone_UTC ''s1'' (example_course\<lparr>period := ''yearly''\<rparr>)
      (YMD 2024 1 16) [] = Inr example_output
   \<and> period (example_course\<lparr>period := ''yearly''\<rparr>) = ''yearly''
   \<and> length example_output \<le> 5"
proof -
  have h: "generatePaymentsForEnrollment example_uuid zone_UTC ''s1''
      (example_course\<lparr>period := ''yearly''\<rparr>) (YMD 2024 1 16) [] = Inr example_output"
    by code_simp
  have "period (example_course\<lparr>period := ''yearly''\<rparr>) = ''yearly''" by simp
  with horizon_bound [OF h] h show ?thesis by blast
qed

text \<open>
  C6 (join date before the course start).  As stated the claim fails: the clamp
  \<open>currentPeriodStart < joinDate ? joinDate : currentPeriodStart\<close> takes the later of the
  two dates, so with a join date before the start the effective start is the start.  A
  yearly course that starts on 2024-01-01, joined on 2023-12-15, yields records from
  2024-01-01 on, and none that starts on 2023-12-15.
\<close>

theorem join_before_start_counterexample:
  "map_sum id (map periodStart)
     (generatePaymentsForEnrollment example_uuid zone_UTC ''s1'' (example_course\<lparr>period := ''yearly''\<rparr>)
        (YMD 2023 12 15) [])
     = Inr [''2024-01-01'', ''2025-01-01'', ''2026-01-01'', ''2027-01-01'', ''2028-01-01'']
   \<and> toISODate (Date_new (YMD 2023 12 15)) = Inr ''2023-12-15''
   \<and> date_lt (Date_new (YMD 2023 12 15))
        (Date_new (startDate (example_course\<lparr>period := ''yearly''\<rparr>)))"
  by code_simp

text \<open>
  C6, amended.  With a join date strictly before the course's start date the alignment
  loop leaves \<open>cycleStart\<close> equal to the start date, the effective start of the first
  cycle is the start date itself, and the first record of the output, unless an existing
  payment suppresses it, has the start date as \<open>periodStart\<close> and the full fee as amount.
\<close>

theorem join_before_start:
  assumes "Date_new (startDate c) = Some s" and "Date_new joinDateStr = Some j" and "j < s"
  shows "cycle_alignment z (period c) (Date_new joinDateStr) (Date_new (startDate c))
           = Date_new (startDate c)
    \<and> effectiveStart_of (Date_new joinDateStr) (Date_new (startDate c)) = Date_new (startDate c)
    \<and> (\<exists>P. generatePaymentsForEnrollment u z sid c joinDateStr existing = Inr P
          \<and> ((\<forall>q \<in> set existing. \<not> (studentId q = sid \<and> courseId q = id_c c
                  \<and> prefix (ISODate s) (periodStart q)))
              \<longrightarrow> P \<noteq> [] \<and> Inr (periodStart (hd P)) = toISODate (Date_new (startDate c))
                  \<and> amount (hd P) = fee c))"
proof -
  have al: "cycle_alignment z (period c) (Some j) (Some s) = Some s"
    using assms(3) by (simp add: cycle_alignment_before)
  have ef: "effectiveStart_of (Some j) (Some s) = Some s"
    using assms(3) by (simp add: effectiveStart_of_def)
  have am: "cycle_amount (fee c) 0 (Some j) (Some s) (Some e) = fee c" for e
    using assms(3) by simp
  obtain t0 a x0 where "cycle_alignment z (period c) (Date_new joinDateStr) (Some s) = Some t0"
    and "(advance z (period c) ^^ a) (Some s) = Some t0"
    and "effectiveStart_of (Date_new joinDateStr) (Some t0) = Some x0"
    and "x0 = t0 \<or> Date_new joinDateStr = Some x0"
    and "x0 < next_t z (period c) t0"
    and "\<not> date_lt (Some (next_t z (period c) t0)) (Date_new joinDateStr)"
    and "candidates z sid c (Date_new joinDateStr) (periodsToGenerate (period c)) 0 (Some t0) =
        cycle_record sid c x0 (next_t z (period c) t0)
          (cycle_amount (fee c) 0 (Date_new joinDateStr) (Some t0)
             (Some (next_t z (period c) t0)))
        # map (\<lambda>m. cycle_record sid c ((next_t z (period c) ^^ Suc m) t0)
                     ((next_t z (period c) ^^ Suc (Suc m)) t0) (fee c))
            [0..<periodsToGenerate (period c) - 1]"
    by (rule run_shape [OF assms(1), of z joinDateStr sid])
  then obtain rest where C: "candidates z sid c (Some j) (periodsToGenerate (period c)) 0 (Some s)
      = cycle_record sid c s (next_t z (period c) s) (fee c) # rest"
    using al ef am unfolding assms(2) by auto
  define P where "P = fresh u 0 (kept sid c existing
      (candidates z sid c (Some j) (periodsToGenerate (period c)) 0 (Some s)))"
  have gen: "generatePaymentsForEnrollment u z sid c joinDateStr existing = Inr P"
    unfolding generate_valid [OF assms(1)] assms(2) al P_def by (rule refl)
  have "P \<noteq> [] \<and> Inr (periodStart (hd P)) = toISODate (Some s) \<and> amount (hd P) = fee c"
    if "\<forall>q \<in> set existing. \<not> (studentId q = sid \<and> courseId q = id_c c
        \<and> prefix (ISODate s) (periodStart q))"
  proof -
    have "\<not> has_record sid (id_c c) existing (ISODate s)"
      using that by (auto simp: has_record_def list_ex_iff)
    then have "P = (cycle_record sid c s (next_t z (period c) s) (fee c))\<lparr>id_p := u 0\<rparr>
        # fresh u (Suc 0) (kept sid c existing rest)"
      unfolding P_def C by (simp add: kept_def cycle_record_def)
    then show ?thesis
      by (simp add: cycle_record_def toISODate_Some)
  qed
  then show ?thesis
    using gen al ef unfolding assms(1,2) by blast
qed

theorem join_before_start_witness:
  "(Date_new (startDate (example_course\<lparr>period := ''yearly''\<rparr>)) = Some 1704067200000
   \<and> Date_new (YMD 2023 12 15) = Some 1702598400000
   \<and> (1702598400000 :: int) < 1704067200000)
   \<and> cycle_alignment zone_UTC (period (example_course\<lparr>period := ''yearly''\<rparr>))
        (Date_new (YMD 2023 12 15)) (Date_new (startDate (example_course\<lparr>period := ''yearly''\<rparr>)))
      = Date_new (startDate (example_course\<lparr>period := ''yearly''\<rparr>))
   \<and> effectiveStart_of (Date_new (YMD 2023 12 15))
        (Date_new (startDate (example_course\<lparr>period := ''yearly''\<rparr>)))
      = Date_new (startDate (example_course\<lparr>period := ''yearly''\<rparr>))
   \<and> (\<exists>P. generatePaymentsForEnrollment example_uuid zone_UTC ''s1''
            (example_course\<lparr>period := ''yearly''\<rparr>) (YMD 2023 12 15) [] = Inr P
          \<and> P \<noteq> []
          \<and> Inr (periodStart (hd P))
              = toISODate (Date_new (startDate (example_course\<lparr>period := ''yearly''\<rparr>)))
          \<and> amount (hd P) = fee (example_course\<lparr>period := ''yearly''\<rparr>))"
proof -
  have h1: "Date_new (startDate (example_course\<lparr>period := ''yearly''\<rparr>)) = Some 1704067200000"
    by code_simp
  have h2: "Date_new (YMD 2023 12 15) = Some 1702598400000"
    by code_simp
  have h3: "(1702598400000 :: int) < 1704067200000"
    by simp
  have e: "\<forall>q \<in> set ([] :: Payment list). \<not> (studentId q = ''s1''
      \<and> courseId q = id_c (example_course\<lparr>period := ''yearly''\<rparr>)
      \<and> prefix (ISODate 1704067200000) (periodStart q))"
    by simp
  note r = join_before_start [OF h1 h2 h3, of zone_UTC example_uuid "''s1''" "[]"]
  show ?thesis
    by (rule conjI) (intro conjI h1 h2 h3, use r e in blast)
qed

text \<open>
  C7 (unrecognized period).  For every period value other than \<open>'weekly'\<close> and
  \<open>'monthly'\<close> the generator behaves as for \<open>'yearly'\<close>: both loops advance by one
  calendar year, the horizon is 5 cycles, and the result of the call is the same.
\<close>

theorem unrecognized_period_is_yearly:
  assumes "p \<noteq> ''weekly''" "p \<noteq> ''monthly''"
  shows "advance z p date = addYears z date 1
    \<and> periodsToGenerate p = 5
    \<and> generatePaymentsForEnrollment u z sid (c\<lparr>period := p\<rparr>) joinDateStr existing
       = generatePaymentsForEnrollment u z sid (c\<lparr>period := ''yearly''\<rparr>) joinDateStr existing"
proof -
  have adv: "advance z p = advance z ''yearly''"
    using assms by (auto simp: advance_def fun_eq_iff)
  have a: "advance z p date = addYears z date 1"
    using assms by (simp add: advance_def)
  have n: "periodsToGenerate p = 5"
    using assms by (simp add: periodsToGenerate_def)
  have n': "periodsToGenerate ''yearly'' = 5"
    by (simp add: periodsToGenerate_def)
  have "for_loop u z sid (c\<lparr>period := p\<rparr>) joinDate existing k i s np
      = for_loop u z sid (c\<lparr>period := ''yearly''\<rparr>) joinDate existing k i s np"
    for joinDate k i s np
    by (rule for_loop_cong) (simp add: loop_body_def adv Let_def split: sum.split)
  then have "generatePaymentsForEnrollment u z sid (c\<lparr>period := p\<rparr>) joinDateStr existing
       = generatePaymentsForEnrollment u z sid (c\<lparr>period := ''yearly''\<rparr>) joinDateStr existing"
    by (simp add: generatePaymentsForEnrollment_def n n' cycle_alignment_cong [OF adv])
  with a n show ?thesis by blast
qed

theorem unrecognized_period_is_yearly_witness:
  "''daily'' \<noteq> ''weekly'' \<and> ''daily'' \<noteq> ''monthly''
   \<and> advance zone_UTC ''daily'' (Date_new (YMD 2024 2 29)) = addYears zone_UTC (Date_new (YMD 2024 2 29)) 1
   \<and> periodsToGenerate ''daily'' = 5
   \<and> generatePaymentsForEnrollment example_uuid zone_UTC ''s1'' (example_course\<lparr>period := ''daily''\<rparr>)
        (YMD 2024 1 16) []
     = generatePaymentsForEnrollment example_uuid zone_UTC ''s1''
        (example_course\<lparr>period := ''yearly''\<rparr>) (YMD 2024 1 16) []"
proof -
  have h: "''daily'' \<noteq> ''weekly''" "''daily'' \<noteq> ''monthly''" by simp_all
  show ?thesis
    using h unrecognized_period_is_yearly [OF h]
    by blast
qed

text \<open>
  C8 (output ordering).  The records returned by a call are in ascending order of
  \<open>periodStart\<close>, in every time zone: of any two records of the output, the earlier one
  carries the calendar date of the same day as the later one or of an earlier day, and
  from the second record on always of an earlier day.  (Only the first record, when it
  starts on the join date, can carry the same date as the second; see C9.)
\<close>

theorem output_ascending:
  assumes "generatePaymentsForEnrollment u z sid c joinDateStr existing = Inr P"
  shows "sorted_wrt (\<lambda>r r'. \<exists>a b. Inr (periodStart r) = toISODate (Some a)
            \<and> Inr (periodStart r') = toISODate (Some b) \<and> Day a \<le> Day b) P
    \<and> sorted_wrt (\<lambda>r r'. \<exists>a b. Inr (periodStart r) = toISODate (Some a)
            \<and> Inr (periodStart r') = toISODate (Some b) \<and> Day a < Day b) (tl P)"
proof -
  define before where "before d d' \<longleftrightarrow> (\<exists>a b. d = ISODate a \<and> d' = ISODate b \<and> Day a < Day b)"
    for d d'
  define not_after where
    "not_after d d' \<longleftrightarrow> (\<exists>a b. d = ISODate a \<and> d' = ISODate b \<and> Day a \<le> Day b)" for d d'
  define p where "p = period c"
  have pc: "period c = p" by (simp add: p_def)
  obtain s where s: "Date_new (startDate c) = Some s"
    using generate_Inr [OF assms] by blast
  obtain t0 a x0 where t0: "cycle_alignment z (period c) (Date_new joinDateStr) (Some s) = Some t0"
    and x0: "x0 < next_t z (period c) t0"
    and C: "candidates z sid c (Date_new joinDateStr) (periodsToGenerate (period c)) 0 (Some t0) =
        cycle_record sid c x0 (next_t z (period c) t0)
          (cycle_amount (fee c) 0 (Date_new joinDateStr) (Some t0)
             (Some (next_t z (period c) t0)))
        # map (\<lambda>m. cycle_record sid c ((next_t z (period c) ^^ Suc m) t0)
                     ((next_t z (period c) ^^ Suc (Suc m)) t0) (fee c))
            [0..<periodsToGenerate (period c) - 1]"
    by (rule run_shape [OF s, of z joinDateStr sid])
  define f where "f = (\<lambda>m. ISODate ((next_t z p ^^ Suc m) t0))"
  define g where "g = (\<lambda>d. \<not> has_record sid (id_c c) existing d)"
  define ds where "ds = map f [0..<periodsToGenerate p - 1]"
  have starts: "map periodStart P = filter g (ISODate x0 # ds)"
    using generate_starts [OF s assms] C t0
    by (simp add: pc cycle_record_def f_def g_def ds_def comp_def)
  have "before (f m) (f m')" if "m < m'" for m m'
    using next_funpow_mono [of "Suc m" "Suc m'" z p t0] that
    unfolding before_def f_def by blast
  then have "sorted_wrt (\<lambda>m m'. before (f m) (f m')) [0..<periodsToGenerate p - 1]"
    using sorted_wrt_mono_rel [of "[0..<periodsToGenerate p - 1]" "(<)"
        "\<lambda>m m'. before (f m) (f m')"]
    by simp
  then have tail: "sorted_wrt before ds"
    by (simp add: sorted_wrt_map ds_def)
  have weaker: "not_after d d'" if "before d d'" for d d'
    using that unfolding before_def not_after_def by (auto intro: less_imp_le)
  have tail': "sorted_wrt not_after ds"
    using tail by (rule sorted_wrt_mono_rel [rotated]) (rule weaker)
  have "not_after (ISODate x0) d" if "d \<in> set ds" for d
  proof -
    from that obtain m where d: "d = ISODate ((next_t z p ^^ Suc m) t0)"
      by (auto simp: ds_def f_def)
    have "Day (next_t z p t0) \<le> Day ((next_t z p ^^ Suc m) t0)"
      using next_funpow_mono [of "Suc 0" "Suc m" z p t0] by (cases m) simp_all
    moreover have "Day x0 \<le> Day (next_t z p t0)"
      using x0 by (intro Day_mono) (simp add: pc)
    ultimately have "Day x0 \<le> Day ((next_t z p ^^ Suc m) t0)"
      by simp
    then show ?thesis
      unfolding not_after_def d by blast
  qed
  then have "sorted_wrt not_after (ISODate x0 # ds)"
    using tail' by simp
  then have all: "sorted_wrt not_after (map periodStart P)"
    unfolding starts by (rule sorted_wrt_filter)
  have "sorted_wrt before (tl (filter g (ISODate x0 # ds)))"
  proof (cases "g (ISODate x0)")
    case True
    then show ?thesis
      using sorted_wrt_filter [OF tail, of g] by simp
  next
    case False
    then show ?thesis
      using sorted_wrt_tl [OF sorted_wrt_filter [OF tail, of g]] by simp
  qed
  then have rest: "sorted_wrt before (map periodStart (tl P))"
    by (simp add: map_tl starts)
  show ?thesis
    using all rest
    by (simp add: sorted_wrt_map before_def not_after_def toISODate_Some)
qed

theorem output_ascending_witness:
  "generatePaymentsForEnrollment example_uuid zone_UTC ''s1'' (example_course\<lparr>period := ''yearly''\<rparr>)
      (YMD 2024 1 16) [] = Inr example_output
   \<and> sorted_wrt (\<lambda>r r'. \<exists>a b. Inr (periodStart r) = toISODate (Some a)
            \<and> Inr (periodStart r') = toISODate (Some b) \<and> Day a \<le> Day b) example_output
   \<and> sorted_wrt (\<lambda>r r'. \<exists>a b. Inr (periodStart r) = toISODate (Some a)
            \<and> Inr (periodStart r') = toISODate (Some b) \<and> Day a < Day b) (tl example_output)"
proof -
  have h: "generatePaymentsForEnrollment example_uuid zone_UTC ''s1''
      (example_course\<lparr>period := ''yearly''\<rparr>) (YMD 2024 1 16) [] = Inr example_output"
    by code_simp
  show ?thesis
    using h output_ascending [OF h] by blast
qed

text \<open>
  C9 (the skip branch is unreachable, and every record has \<open>periodStart < periodEnd\<close>).
  The first half holds in every time zone (\<open>skip_branch_never_taken\<close>); the second does
  not.  In \<open>Europe/Berlin\<close> a weekly course that started on 2024-03-25, joined on
  2024-03-31, yields a first record with \<open>periodStart\<close> and \<open>periodEnd\<close> both 2024-03-31,
  and a second record with the same \<open>periodStart\<close>: the start date, midnight UTC, is 01:00
  local time; \<open>setDate\<close> moves it to 01:00 of 2024-04-01, by then summer time, which is
  23:00 UTC of 2024-03-31, the day of the join date.  The cycle from the join date to that
  boundary lasts 23 hours and is charged 138 of the fee of 1000.
\<close>

theorem period_of_no_days_in_Berlin:
  "map_sum id (\<lambda>P. map (\<lambda>r. (periodStart r, periodEnd r, amount r)) (take 2 P))
     (generatePaymentsForEnrollment example_uuid zone_Berlin ''s1''
        (example_course\<lparr>startDate := YMD 2024 3 25, period := ''weekly''\<rparr>) (YMD 2024 3 31) [])
   = Inr [(''2024-03-31'', ''2024-03-31'', 138), (''2024-03-31'', ''2024-04-07'', 1000)]"
  by code_simp

text \<open>
  C10 (the duplicate check reads three fields).  Two sequences of existing payments that
  hold the same triples of \<open>studentId\<close>, \<open>courseId\<close> and calendar date of \<open>periodStart\<close>
  (the part of the string before its first \<open>T\<close>, as in the generator's own
  \<open>split('T')[0]\<close>) give the same output, and the same output up to the identifiers when
  the supplies of identifiers differ.  No other field of an existing payment (its status,
  amount, \<open>periodEnd\<close>, \<open>dueDate\<close>, \<open>paidDate\<close> or identifier) is read.
\<close>

theorem duplicate_check_reads_three_fields:
  assumes "(\<lambda>q. (studentId q, courseId q, split_T_0 (periodStart q))) ` set existing1
         = (\<lambda>q. (studentId q, courseId q, split_T_0 (periodStart q))) ` set existing2"
  shows "generatePaymentsForEnrollment u z sid c joinDateStr existing1
       = generatePaymentsForEnrollment u z sid c joinDateStr existing2
    \<and> map_sum id (map (\<lambda>r. r\<lparr>id_p := []\<rparr>))
         (generatePaymentsForEnrollment u1 z sid c joinDateStr existing1)
       = map_sum id (map (\<lambda>r. r\<lparr>id_p := []\<rparr>))
         (generatePaymentsForEnrollment u2 z sid c joinDateStr existing2)"
proof (cases "Date_new (startDate c)")
  case None
  then show ?thesis by (simp add: generate_invalid)
next
  case (Some s)
  define key where "key = (\<lambda>q :: Payment. (studentId q, courseId q, split_T_0 (periodStart q)))"
  have hk: "has_record sid (id_c c) existing (ISODate x)
      \<longleftrightarrow> (\<exists>k \<in> key ` set existing. fst k = sid \<and> fst (snd k) = id_c c
            \<and> prefix (ISODate x) (snd (snd k)))" for existing x
    by (auto simp: has_record_def list_ex_iff key_def split_T_0_prefix [symmetric])
  have same: "has_record sid (id_c c) existing1 (ISODate x)
      \<longleftrightarrow> has_record sid (id_c c) existing2 (ISODate x)" for x
    unfolding hk using assms by (simp add: key_def)
  define C where "C = candidates z sid c (Date_new joinDateStr) (periodsToGenerate (period c)) 0
      (cycle_alignment z (period c) (Date_new joinDateStr) (Some s))"
  have "kept sid c existing1 C = kept sid c existing2 C"
    unfolding kept_def
  proof (rule filter_cong [OF refl])
    fix r assume "r \<in> set C"
    then obtain x where "periodStart r = ISODate x"
      unfolding C_def by (auto dest: candidates_ids)
    then show "(\<not> has_record sid (id_c c) existing1 (periodStart r))
        = (\<not> has_record sid (id_c c) existing2 (periodStart r))"
      by (simp add: same)
  qed
  moreover have "map (\<lambda>r. r\<lparr>id_p := []\<rparr>) (fresh v k rs) = map (\<lambda>r. r\<lparr>id_p := []\<rparr>) rs"
    for v k rs
    by (rule map_fresh) simp
  ultimately show ?thesis
    by (simp add: generate_valid [OF Some] C_def [symmetric])
qed

theorem duplicate_check_reads_three_fields_witness:
  "(\<lambda>q. (studentId q, courseId q, split_T_0 (periodStart q))) ` set example_existing
     = (\<lambda>q. (studentId q, courseId q, split_T_0 (periodStart q))) ` set example_existing_pending
   \<and> (generatePaymentsForEnrollment example_uuid zone_UTC ''s1'' example_course (YMD 2024 1 16)
        example_existing
       = generatePaymentsForEnrollment example_uuid zone_UTC ''s1'' example_course (YMD 2024 1 16)
        example_existing_pending
    \<and> map_sum id (map (\<lambda>r. r\<lparr>id_p := []\<rparr>))
         (generatePaymentsForEnrollment example_uuid zone_UTC ''s1'' example_course (YMD 2024 1 16)
            example_existing)
       = map_sum id (map (\<lambda>r. r\<lparr>id_p := []\<rparr>))
         (generatePaymentsForEnrollment (\<lambda>k. ''other'') zone_UTC ''s1'' example_course (YMD 2024 1 16)
            example_existing_pending))"
proof -
  have h: "(\<lambda>q. (studentId q, courseId q, split_T_0 (periodStart q))) ` set example_existing
     = (\<lambda>q. (studentId q, courseId q, split_T_0 (periodStart q)))
         ` set example_existing_pending"
    by (simp add: example_existing_def example_existing_pending_def split_T_0_def)
  show ?thesis
    by (rule conjI [OF h])
       (rule duplicate_check_reads_three_fields [OF h, of example_uuid zone_UTC "''s1''" example_course
          "YMD 2024 1 16" example_uuid "\<lambda>k. ''other''"])
qed

end

